theory Spec2Isabelle
  imports Main
begin

section \<open>Strings\<close>

text \<open>
  JavaScript strings are modelled as \<^typ>\<open>string\<close>, a list of 8-bit characters that
  stand for the code units U+0000 to U+00FF. Of JavaScript's line terminators only line
  feed and carriage return exist in this character type.

  \<open>toLowerCase\<close> maps each character on its own. In this range the characters with a
  lowercase form are the letters A to Z and the capitals U+00C0 to U+00DE, the
  multiplication sign U+00D7 among them excepted; the lowercase form is 32 places up and
  stays in the range. Every other character is left as it is.
\<close>

definition lower_char :: "char \<Rightarrow> char" where
  "lower_char c =
     (let n = (of_char c :: nat)
      in if (65 \<le> n \<and> n \<le> 90) \<or> (192 \<le> n \<and> n \<le> 222 \<and> n \<noteq> 215)
         then char_of (n + 32) else c)"

definition toLowerCase :: "string \<Rightarrow> string" where
  "toLowerCase s = map lower_char s"

definition digit_char :: "nat \<Rightarrow> char" where
  "digit_char d = char_of (48 + d)"

text \<open>The decimal rendering of a number inside a template literal.\<close>

function show_nat :: "nat \<Rightarrow> string" where
  "show_nat n = (if n < 10 then [digit_char n] else show_nat (n div 10) @ [digit_char (n mod 10)])"
  by pat_completeness auto
termination
  by (relation "measure (\<lambda>n. n)") auto

declare show_nat.simps [simp del]

definition digit_val :: "char \<Rightarrow> nat" where
  "digit_val c = (of_char c :: nat) - 48"

definition read_nat :: "string \<Rightarrow> nat" where
  "read_nat s = foldl (\<lambda>acc c. acc * 10 + digit_val c) 0 s"

section \<open>The slug generator\<close>

text \<open>
  Modelled from the spec: the class \<open>Slugger\<close> is imported from \<open>./default/DefaultTheme\<close>,
  which is not among the sources. The spec (4.1) gives its algorithm: lowercase, collapse
  whitespace runs to single hyphens, strip characters unsafe for URL fragments, then
  resolve collisions by appending \<open>-1\<close>, \<open>-2\<close>, ... against the instance's running set of
  already-issued slugs, choosing the smallest unused suffix. The spec does not list the
  unsafe characters, so the predicate \<open>unsafe\<close> is a parameter. The state of an instance
  is the list of the slugs it has issued, oldest first.
\<close>

type_synonym slugger = "string list"

definition new_Slugger :: slugger where
  "new_Slugger = []"

definition is_space :: "char \<Rightarrow> bool" where
  "is_space c = (let n = (of_char c :: nat) in n = 32 \<or> (9 \<le> n \<and> n \<le> 13))"

function collapse_ws :: "string \<Rightarrow> string" where
  "collapse_ws [] = []"
| "collapse_ws (c # cs) =
     (if is_space c then CHR ''-'' # collapse_ws (dropWhile is_space cs)
      else c # collapse_ws cs)"
  by pat_completeness auto
termination
  by (relation "measure length") (auto simp: length_dropWhile_le less_Suc_eq_le)

definition serialize :: "(char \<Rightarrow> bool) \<Rightarrow> string \<Rightarrow> string" where
  "serialize unsafe text = filter (\<lambda>c. \<not> unsafe c) (collapse_ws (toLowerCase text))"

definition suffixed :: "string \<Rightarrow> nat \<Rightarrow> string" where
  "suffixed base n = base @ ''-'' @ show_nat n"

text \<open>
  The search for the smallest unused suffix, counting up from \<open>n\<close>. It ends because the
  issued slugs are finitely many and different numbers give different candidates.
\<close>

lemma read_nat_snoc: "read_nat (s @ [c]) = read_nat s * 10 + digit_val c"
  by (simp add: read_nat_def)

lemma digit_val_digit_char: "d < 10 \<Longrightarrow> digit_val (digit_char d) = d"
  by (simp add: digit_val_def digit_char_def)

lemma read_nat_show_nat: "read_nat (show_nat n) = n"
proof (induction n rule: show_nat.induct)
  case (1 n)
  show ?case
  proof (cases "n < 10")
    case True
    then show ?thesis
      by (subst show_nat.simps) (simp add: read_nat_def digit_val_digit_char)
  next
    case False
    with 1 have "read_nat (show_nat (n div 10)) = n div 10" by simp
    with False show ?thesis
      by (subst show_nat.simps) (simp add: read_nat_snoc digit_val_digit_char)
  qed
qed

lemma show_nat_inj: "show_nat m = show_nat n \<Longrightarrow> m = n"
  by (metis read_nat_show_nat)

lemma suffixed_inj: "suffixed base m = suffixed base n \<Longrightarrow> m = n"
  by (simp add: suffixed_def show_nat_inj)

lemma finite_used_suffixes: "finite {k. suffixed base k \<in> set issued}"
proof -
  have "inj (suffixed base)"
    by (rule injI) (rule suffixed_inj)
  then have "finite (suffixed base -` set issued)"
    by (intro finite_vimageI) simp_all
  then show ?thesis by (simp add: vimage_def)
qed

function first_unused :: "string \<Rightarrow> string list \<Rightarrow> nat \<Rightarrow> nat" where
  "first_unused base issued n =
     (if suffixed base n \<in> set issued then first_unused base issued (Suc n) else n)"
  by pat_completeness auto
termination
proof (relation "measure (\<lambda>(base, issued, n). card {k. n \<le> k \<and> suffixed base k \<in> set issued})")
  show "wf (measure (\<lambda>(base, issued, n). card {k. n \<le> k \<and> suffixed base k \<in> set issued}))"
    by simp
next
  fix base :: string and issued :: "string list" and n :: nat
  assume used: "suffixed base n \<in> set issued"
  let ?A = "{k. Suc n \<le> k \<and> suffixed base k \<in> set issued}"
  let ?B = "{k. n \<le> k \<and> suffixed base k \<in> set issued}"
  have fin: "finite ?B"
    by (rule finite_subset [OF _ finite_used_suffixes [of base issued]]) auto
  have "n \<in> ?B" and "n \<notin> ?A" and "?A \<subseteq> ?B"
    using used by auto
  then have "?A \<subset> ?B" by blast
  then have "card ?A < card ?B"
    by (rule psubset_card_mono [OF fin])
  then show "((base, issued, Suc n), (base, issued, n))
      \<in> measure (\<lambda>(base, issued, n). card {k. n \<le> k \<and> suffixed base k \<in> set issued})"
    by simp
qed

declare first_unused.simps [simp del]

definition slug :: "(char \<Rightarrow> bool) \<Rightarrow> string \<Rightarrow> slugger \<Rightarrow> string \<times> slugger" where
  "slug unsafe text issued =
     (let base = serialize unsafe text;
          s = (if base \<in> set issued then suffixed base (first_unused base issued 1) else base)
      in (s, issued @ [s]))"

text \<open>A run of \<open>slug\<close> calls on one instance: the slugs returned, in call order.\<close>

fun slug_calls :: "(char \<Rightarrow> bool) \<Rightarrow> string list \<Rightarrow> slugger \<Rightarrow> string list \<times> slugger" where
  "slug_calls unsafe [] sl = ([], sl)"
| "slug_calls unsafe (t # ts) sl =
     (let (s, sl1) = slug unsafe t sl; (ss, sl2) = slug_calls unsafe ts sl1 in (s # ss, sl2))"

section \<open>The plugin and its surroundings\<close>

text \<open>
  A warning is identified by the message function that builds it and that function's
  arguments: for the two highlighting warnings the language and the name of the
  originating document.
\<close>

datatype warning =
    custom_theme_does_not_define_getSlugger
  | unsupported_highlight_language_0_not_highlighted_in_comment_for_1 string string
  | unloaded_language_0_not_highlighted_in_comment_for_1 string string

text \<open>
  The highlighter module (\<open>utils/highlighter\<close>) is an external capability: three
  functions that are parameters of the model. Each call made to it is recorded, in order.
\<close>

record highlighter =
  highlight :: "string \<Rightarrow> string \<Rightarrow> string"
  isSupportedLanguage :: "string \<Rightarrow> bool"
  isLoadedLanguage :: "string \<Rightarrow> bool"

datatype highlighter_call =
    call_isSupportedLanguage string
  | call_isLoadedLanguage string
  | call_highlight string string

datatype error = TypeError

record page_heading =
  link :: string
  heading_text :: string
  level :: nat

text \<open>Of the current page, its model's friendly full name and its heading list.\<close>

record page_event =
  friendlyFullName :: string
  pageHeadings :: "page_heading list"

text \<open>
  The state the plugin reads and writes: the logger, the calls made to the highlighter,
  the module-level \<open>defaultSlugger\<close>, the fields \<open>page\<close>, \<open>lastHeaderSlug\<close> and
  \<open>renderContext\<close>, and the slugger that the theme's \<open>getSlugger\<close> returns for the
  current page's model (\<open>None\<close> when the theme does not define \<open>getSlugger\<close>). The
  renderer has a theme whenever a rule runs.
\<close>

record 'ctx plugin_state =
  logged :: "warning list"
  calls :: "highlighter_call list"
  defaultSlugger :: "slugger option"
  theme_getSlugger :: "slugger option"
  page :: "page_event option"
  lastHeaderSlug :: string
  renderContext :: "'ctx option"

datatype slugger_ref = the_defaultSlugger | the_theme_slugger

definition getDefaultSlugger :: "'ctx plugin_state \<Rightarrow> slugger_ref \<times> 'ctx plugin_state" where
  "getDefaultSlugger s =
     (case defaultSlugger s of
        None \<Rightarrow>
          (the_defaultSlugger,
           s\<lparr>logged := logged s @ [custom_theme_does_not_define_getSlugger],
             defaultSlugger := Some new_Slugger\<rparr>)
      | Some _ \<Rightarrow> (the_defaultSlugger, s))"

definition getSlugger :: "'ctx plugin_state \<Rightarrow> error + slugger_ref \<times> 'ctx plugin_state" where
  "getSlugger s =
     (case theme_getSlugger s of
        Some _ \<Rightarrow> (case page s of None \<Rightarrow> Inl TypeError | Some _ \<Rightarrow> Inr (the_theme_slugger, s))
      | None \<Rightarrow> Inr (getDefaultSlugger s))"

text \<open>The method \<open>slug\<close> called on the instance a reference stands for.\<close>

definition slug_on ::
  "(char \<Rightarrow> bool) \<Rightarrow> slugger_ref \<Rightarrow> string \<Rightarrow> 'ctx plugin_state \<Rightarrow> error + string \<times> 'ctx plugin_state"
where
  "slug_on unsafe r text s =
     (case r of
        the_defaultSlugger \<Rightarrow>
          (case defaultSlugger s of
             None \<Rightarrow> Inl TypeError
           | Some sl \<Rightarrow> (let (sg, sl') = slug unsafe text sl in Inr (sg, s\<lparr>defaultSlugger := Some sl'\<rparr>)))
      | the_theme_slugger \<Rightarrow>
          (case theme_getSlugger s of
             None \<Rightarrow> Inl TypeError
           | Some sl \<Rightarrow> (let (sg, sl') = slug unsafe text sl in Inr (sg, s\<lparr>theme_getSlugger := Some sl'\<rparr>))))"

subsection \<open>getHighlighted\<close>

definition page_name :: "'ctx plugin_state \<Rightarrow> string" where
  "page_name s = (case page s of None \<Rightarrow> ''(unknown)'' | Some p \<Rightarrow> friendlyFullName p)"

definition getHighlighted ::
  "highlighter \<Rightarrow> string \<Rightarrow> string option \<Rightarrow> 'ctx plugin_state \<Rightarrow> string \<times> 'ctx plugin_state"
where
  "getHighlighted hl text lang s =
     (let lang1 = (case lang of None \<Rightarrow> ''typescript'' | Some l \<Rightarrow> if l = [] then ''typescript'' else l);
          lang2 = toLowerCase lang1;
          s1 = s\<lparr>calls := calls s @ [call_isSupportedLanguage lang2]\<rparr>
      in if \<not> isSupportedLanguage hl lang2 then
           (text, s1\<lparr>logged := logged s1 @
              [unsupported_highlight_language_0_not_highlighted_in_comment_for_1 lang2 (page_name s1)]\<rparr>)
         else
           (let s2 = s1\<lparr>calls := calls s1 @ [call_isLoadedLanguage lang2]\<rparr>
            in if \<not> isLoadedLanguage hl lang2 then
                 (text, s2\<lparr>logged := logged s2 @
                    [unloaded_language_0_not_highlighted_in_comment_for_1 lang2 (page_name s2)]\<rparr>)
               else
                 (highlight hl text lang2, s2\<lparr>calls := calls s2 @ [call_highlight text lang2]\<rparr>)))"

subsection \<open>The code-fence hook of setupParser\<close>

text \<open>\<open>replace(/\n$/, "")\<close>: without the multiline flag \<open>$\<close> is the end of the input.\<close>

definition replace_final_newline :: "string \<Rightarrow> string" where
  "replace_final_newline s = (if s \<noteq> [] \<and> last s = CHR 0x0A then butlast s else s)"

text \<open>
  The engine passes the fence's language name as a string, empty when the fence has
  none. \<open>escapeHtml\<close> (\<open>utils/html\<close>) is a parameter.
\<close>

definition fence_highlight ::
  "highlighter \<Rightarrow> (string \<Rightarrow> string) \<Rightarrow> string \<Rightarrow> string \<Rightarrow> 'ctx plugin_state
     \<Rightarrow> string \<times> 'ctx plugin_state"
where
  \<open>fence_highlight hl escapeHtml code lang s =
     (let l = (if lang = [] then ''ts'' else lang);
          code1 = highlight hl code l;
          s1 = s\<lparr>calls := calls s @ [call_highlight code l]\<rparr>;
          code2 = replace_final_newline code1 @ [CHR 0x0A]
      in if lang = [] then
           (''<pre><code>'' @ code2 @ ''</code><button>Copy</button></pre>'' @ [CHR 0x0A], s1)
         else
           (''<pre><code class="'' @ escapeHtml lang @ ''">'' @ code2 @
              ''</code><button type="button">Copy</button></pre>'' @ [CHR 0x0A], s1))\<close>

subsection \<open>Tokens and the rule overrides\<close>

text \<open>
  The engine's token, with the fields the rules read. \<open>attrGet\<close> and \<open>attrSet\<close> are the
  engine's: the first pair with the name is read or replaced, a missing name is appended.
\<close>

record token =
  type :: string
  tag :: string
  markup :: string
  content :: string
  attrs :: "(string \<times> string) list"

definition attrGet :: "token \<Rightarrow> string \<Rightarrow> string option" where
  "attrGet t name = map_of (attrs t) name"

fun attrs_set :: "(string \<times> string) list \<Rightarrow> string \<Rightarrow> string \<Rightarrow> (string \<times> string) list" where
  "attrs_set [] name v = [(name, v)]"
| "attrs_set ((n, x) # as) name v =
     (if n = name then (name, v) # as else (n, x) # attrs_set as name v)"

definition attrSet :: "token \<Rightarrow> string \<Rightarrow> string \<Rightarrow> token" where
  "attrSet t name v = t\<lparr>attrs := attrs_set (attrs t) name v\<rparr>"

text \<open>
  \<open>heading_open\<close>. Reading \<open>tokens[idx + 1].content\<close> past the end of the array and
  \<open>this.page!\<close> without a page raise a TypeError. \<open>getTextContent\<close> (\<open>utils/html\<close>) is a
  parameter.
\<close>

definition heading_open ::
  "(char \<Rightarrow> bool) \<Rightarrow> (string \<Rightarrow> string) \<Rightarrow> token list \<Rightarrow> nat \<Rightarrow> 'ctx plugin_state
     \<Rightarrow> error + string \<times> 'ctx plugin_state"
where
  \<open>heading_open unsafe getTextContent tokens idx s =
     (if length tokens \<le> idx + 1 then Inl TypeError
      else
        let token = tokens ! idx;
            content1 = content (tokens ! (idx + 1));
            level1 = length (markup token)
        in case getSlugger s of
             Inl e \<Rightarrow> Inl e
           | Inr (r, s1) \<Rightarrow>
               (case slug_on unsafe r content1 s1 of
                  Inl e \<Rightarrow> Inl e
                | Inr (slug1, s2) \<Rightarrow>
                    (let s3 = s2\<lparr>lastHeaderSlug := slug1\<rparr>
                     in case page s3 of
                          None \<Rightarrow> Inl TypeError
                        | Some p \<Rightarrow>
                            Inr (''<a id="md:'' @ slug1 @ ''" class="tsd-anchor"></a><'' @ tag token @
                                   '' class="tsd-anchor-link">'',
                                 s3\<lparr>page := Some (p\<lparr>pageHeadings := pageHeadings p @
                                   [\<lparr>link = ''#md:'' @ slug1,
                                     heading_text = getTextContent content1,
                                     level = level1\<rparr>]\<rparr>)\<rparr>))))\<close>

text \<open>
  \<open>heading_close\<close>. The anchor icon and its rendering are external: \<open>anchor\<close> stands for
  \<open>renderElement(anchorIcon(context, id))\<close>.
\<close>

definition heading_close ::
  "('ctx option \<Rightarrow> string \<Rightarrow> string) \<Rightarrow> token list \<Rightarrow> nat \<Rightarrow> 'ctx plugin_state \<Rightarrow> error + string"
where
  \<open>heading_close anchor tokens idx s =
     (if length tokens \<le> idx then Inl TypeError
      else Inr (anchor (renderContext s) (''md:'' @ lastHeaderSlug s) @ ''</'' @ tag (tokens ! idx) @ ''>''))\<close>

text \<open>
  \<open>link_open\<close>. The pattern \<open>/^#(?:md:)?(.+)/\<close> is matched as the engine does, from the
  start of the string only: after \<open>#\<close> the optional \<open>md:\<close> is tried first, and given up
  when \<open>(.+)\<close> finds no character after it; \<open>(.+)\<close> takes the longest run of characters
  that are not line terminators, and at least one. A match gives the group and the rest
  of the string, which \<open>replace\<close> keeps.
\<close>

definition is_line_terminator :: "char \<Rightarrow> bool" where
  "is_line_terminator c = (c = CHR 0x0A \<or> c = CHR 0x0D)"

definition match_dot_plus :: "string \<Rightarrow> (string \<times> string) option" where
  "match_dot_plus s =
     (let g = takeWhile (\<lambda>c. \<not> is_line_terminator c) s
      in if g = [] then None else Some (g, dropWhile (\<lambda>c. \<not> is_line_terminator c) s))"

definition match_href :: "string \<Rightarrow> (string \<times> string) option" where
  "match_href s =
     (case s of
        [] \<Rightarrow> None
      | c # r \<Rightarrow>
          if c \<noteq> CHR ''#'' then None
          else (case (if take 3 r = ''md:'' then match_dot_plus (drop 3 r) else None) of
                  Some m \<Rightarrow> Some m
                | None \<Rightarrow> match_dot_plus r))"

definition replace_href :: "string \<Rightarrow> string" where
  "replace_href s = (case match_href s of None \<Rightarrow> s | Some (g, rest) \<Rightarrow> ''#md:'' @ g @ rest)"

text \<open>
  The rule returns the engine's rendering of the token (\<open>renderToken\<close>, a parameter) and
  leaves the token changed in the array.
\<close>

definition link_open ::
  "(token list \<Rightarrow> nat \<Rightarrow> string) \<Rightarrow> token list \<Rightarrow> nat \<Rightarrow> error + string \<times> token list"
where
  "link_open renderToken tokens idx =
     (if length tokens \<le> idx then Inl TypeError
      else
        let token = tokens ! idx;
            href = map_option replace_href (attrGet token ''href'');
            tokens1 = (case href of
                         None \<Rightarrow> tokens
                       | Some h \<Rightarrow> if h = [] then tokens else tokens[idx := attrSet token ''href'' h])
        in Inr (renderToken tokens1 idx, tokens1))"

subsection \<open>Rendering a token stream\<close>

text \<open>
  What the rules do not define is the engine's: its block parser (\<open>ext_parse\<close>), its
  rendering of an inline token's children (\<open>ext_renderInline\<close>), its \<open>renderToken\<close> and
  its rules for the token types the plugin does not override (\<open>ext_default_rule\<close>).
\<close>

record 'ctx externals =
  ext_unsafe :: "char \<Rightarrow> bool"
  ext_getTextContent :: "string \<Rightarrow> string"
  ext_anchor :: "'ctx option \<Rightarrow> string \<Rightarrow> string"
  ext_renderToken :: "token list \<Rightarrow> nat \<Rightarrow> string"
  ext_default_rule :: "token list \<Rightarrow> nat \<Rightarrow> string"
  ext_renderInline :: "token \<Rightarrow> string"
  ext_parse :: "string \<Rightarrow> token list"

text \<open>
  One round of the engine's rendering loop over the block tokens: an inline token goes
  to the inline renderer, a token whose type has a rule goes to that rule, with the three
  overrides in place.
\<close>

definition render_step ::
  "'ctx externals \<Rightarrow> token list \<Rightarrow> nat \<Rightarrow> 'ctx plugin_state
     \<Rightarrow> error + string \<times> token list \<times> 'ctx plugin_state"
where
  "render_step x tokens i s =
     (let ty = type (tokens ! i)
      in if ty = ''inline'' then Inr (ext_renderInline x (tokens ! i), tokens, s)
         else if ty = ''heading_open'' then
           (case heading_open (ext_unsafe x) (ext_getTextContent x) tokens i s of
              Inl e \<Rightarrow> Inl e
            | Inr (out, s1) \<Rightarrow> Inr (out, tokens, s1))
         else if ty = ''heading_close'' then
           (case heading_close (ext_anchor x) tokens i s of
              Inl e \<Rightarrow> Inl e
            | Inr out \<Rightarrow> Inr (out, tokens, s))
         else if ty = ''link_open'' then
           (case link_open (ext_renderToken x) tokens i of
              Inl e \<Rightarrow> Inl e
            | Inr (out, tokens1) \<Rightarrow> Inr (out, tokens1, s))
         else Inr (ext_default_rule x tokens i, tokens, s))"

fun render_loop ::
  "'ctx externals \<Rightarrow> nat list \<Rightarrow> string \<Rightarrow> token list \<Rightarrow> 'ctx plugin_state
     \<Rightarrow> error + string \<times> token list \<times> 'ctx plugin_state"
where
  "render_loop x [] result tokens s = Inr (result, tokens, s)"
| "render_loop x (i # rest) result tokens s =
     (case render_step x tokens i s of
        Inl e \<Rightarrow> Inl e
      | Inr (out, tokens1, s1) \<Rightarrow> render_loop x rest (result @ out) tokens1 s1)"

definition render ::
  "'ctx externals \<Rightarrow> token list \<Rightarrow> 'ctx plugin_state
     \<Rightarrow> error + string \<times> token list \<times> 'ctx plugin_state"
where
  "render x tokens s = render_loop x [0..<length tokens] [] tokens s"

subsection \<open>The parse event\<close>

record 'p markdown_event =
  event_page :: 'p
  originalText :: string
  parsedText :: string

definition new_MarkdownEvent :: "'p \<Rightarrow> string \<Rightarrow> string \<Rightarrow> 'p markdown_event" where
  "new_MarkdownEvent pg original parsed =
     \<lparr>event_page = pg, originalText = original, parsedText = parsed\<rparr>"

type_synonym ('p, 'ctx) subscriber =
  "'p markdown_event \<Rightarrow> 'ctx plugin_state \<Rightarrow> error + 'p markdown_event \<times> 'ctx plugin_state"

text \<open>
  Modelled from the spec: the event dispatcher of the renderer (\<open>listenTo\<close>, \<open>trigger\<close>)
  is not among the sources. The spec (4.4, 5) has the event published to all subscribers
  strictly in registration order, each free to overwrite \<open>parsedText\<close>. A subscriber that
  raises ends the dispatch.
\<close>

definition listenTo :: "('p, 'ctx) subscriber list \<Rightarrow> ('p, 'ctx) subscriber \<Rightarrow> ('p, 'ctx) subscriber list" where
  "listenTo subs f = subs @ [f]"

fun trigger ::
  "('p, 'ctx) subscriber list \<Rightarrow> 'p markdown_event \<Rightarrow> 'ctx plugin_state
     \<Rightarrow> error + 'p markdown_event \<times> 'ctx plugin_state"
where
  "trigger [] e s = Inr (e, s)"
| "trigger (f # fs) e s =
     (case f e s of Inl err \<Rightarrow> Inl err | Inr (e1, s1) \<Rightarrow> trigger fs e1 s1)"

text \<open>\<open>onParseMarkdown\<close>, with the parser that \<open>setupParser\<close> has built.\<close>

definition onParseMarkdown :: "'ctx externals \<Rightarrow> ('p, 'ctx) subscriber" where
  "onParseMarkdown x event s =
     (case render x (ext_parse x (parsedText event)) s of
        Inl e \<Rightarrow> Inl e
      | Inr (html, _, s1) \<Rightarrow> Inr (event\<lparr>parsedText := html\<rparr>, s1))"

definition initialize :: "'ctx externals \<Rightarrow> ('p, 'ctx) subscriber list \<Rightarrow> ('p, 'ctx) subscriber list" where
  "initialize x subs = listenTo subs (onParseMarkdown x)"

text \<open>
  \<open>parseMarkdown\<close>. The input is a string or a list of display parts;
  \<open>displayPartsToMarkdown\<close> (\<open>Comment\<close>, in the models) is a parameter, given the parts,
  the context and the \<open>html\<close> flag of the engine options.
\<close>

datatype 'part markdown_input = Text_input string | Parts_input "'part list"

definition parseMarkdown ::
  "('part list \<Rightarrow> 'ctx \<Rightarrow> bool \<Rightarrow> string) \<Rightarrow> bool \<Rightarrow> ('p, 'ctx) subscriber list
     \<Rightarrow> 'part markdown_input \<Rightarrow> 'p \<Rightarrow> 'ctx \<Rightarrow> 'ctx plugin_state
     \<Rightarrow> error + string \<times> 'ctx plugin_state"
where
  "parseMarkdown displayPartsToMarkdown html subs input pg context s =
     (let markdown = (case input of
                        Text_input t \<Rightarrow> t
                      | Parts_input ps \<Rightarrow> displayPartsToMarkdown ps context html);
          s1 = s\<lparr>renderContext := Some context\<rparr>;
          event = new_MarkdownEvent pg markdown markdown
      in case trigger subs event s1 of
           Inl e \<Rightarrow> Inl e
         | Inr (event1, s2) \<Rightarrow> Inr (parsedText event1, s2\<lparr>renderContext := None\<rparr>))"

section \<open>Notions used to state the properties\<close>

text \<open>
  The language \<open>getHighlighted\<close> works with: the default for a missing or empty tag,
  lowercased.
\<close>

definition requested_language :: "string option \<Rightarrow> string" where
  "requested_language lang =
     toLowerCase (case lang of None \<Rightarrow> ''typescript'' | Some l \<Rightarrow> if l = [] then ''typescript'' else l)"

text \<open>A string with one line feed at its end, added when it has none.\<close>

definition with_final_newline :: "string \<Rightarrow> string" where
  "with_final_newline r = (if r \<noteq> [] \<and> last r = CHR 0x0A then r else r @ [CHR 0x0A])"

text \<open>The Markdown source \<open>parseMarkdown\<close> starts from.\<close>

definition markdown_source ::
  "('part list \<Rightarrow> 'ctx \<Rightarrow> bool \<Rightarrow> string) \<Rightarrow> bool \<Rightarrow> 'part markdown_input \<Rightarrow> 'ctx \<Rightarrow> string" where
  "markdown_source displayPartsToMarkdown html input context =
     (case input of Text_input t \<Rightarrow> t | Parts_input ps \<Rightarrow> displayPartsToMarkdown ps context html)"

text \<open>
  The heading list of the current page, and the state of the slugger that \<open>getSlugger\<close>
  hands out: the theme's, else the default one, which is new when not yet created.
\<close>

definition headings_of :: "'ctx plugin_state \<Rightarrow> page_heading list" where
  "headings_of s = (case page s of None \<Rightarrow> [] | Some p \<Rightarrow> pageHeadings p)"

definition active_slugger :: "'ctx plugin_state \<Rightarrow> slugger" where
  "active_slugger s =
     (case theme_getSlugger s of
        Some sl \<Rightarrow> sl
      | None \<Rightarrow> (case defaultSlugger s of Some sl \<Rightarrow> sl | None \<Rightarrow> new_Slugger))"

text \<open>
  The headings a token stream asks for, written down from the spec (4.3): for the
  \<open>heading_open\<close> tokens in document order, the entry with the link \<open>#md:\<close> followed by
  the slug that the slugger issues for the heading's content, the plain text of the
  content, and the length of the markup as level.
\<close>

definition heading_entry :: "(string \<Rightarrow> string) \<Rightarrow> token list \<Rightarrow> nat \<times> string \<Rightarrow> page_heading" where
  "heading_entry getTextContent tokens = (\<lambda>(i, sg).
     \<lparr>link = ''#md:'' @ sg,
      heading_text = getTextContent (content (tokens ! (i + 1))),
      level = length (markup (tokens ! i))\<rparr>)"

definition heading_indices :: "token list \<Rightarrow> nat list \<Rightarrow> nat list" where
  "heading_indices tokens is = filter (\<lambda>i. type (tokens ! i) = ''heading_open'') is"

definition headings_for :: "'ctx externals \<Rightarrow> token list \<Rightarrow> nat list \<Rightarrow> slugger \<Rightarrow> page_heading list" where
  "headings_for x tokens is sl =
     map (heading_entry (ext_getTextContent x) tokens)
       (zip (heading_indices tokens is)
            (fst (slug_calls (ext_unsafe x)
                    (map (\<lambda>i. content (tokens ! (i + 1))) (heading_indices tokens is)) sl)))"

definition rendered_headings :: "'ctx externals \<Rightarrow> token list \<Rightarrow> slugger \<Rightarrow> page_heading list" where
  "rendered_headings x tokens sl = headings_for x tokens [0..<length tokens] sl"

text \<open>Two token arrays that differ at most in attributes.\<close>

definition same_shape :: "token list \<Rightarrow> token list \<Rightarrow> bool" where
  "same_shape ts1 ts2 \<longleftrightarrow>
     length ts1 = length ts2 \<and>
     (\<forall>j. type (ts1 ! j) = type (ts2 ! j) \<and> content (ts1 ! j) = content (ts2 ! j)
          \<and> markup (ts1 ! j) = markup (ts2 ! j))"

subsection \<open>Concrete inputs\<close>

text \<open>
  The block tokens of the source \<open># Title\<close>, blank line, \<open># Title\<close>: for each heading
  an opening token with tag \<open>h1\<close> and markup \<open>#\<close>, an inline token with the content, and
  the closing token.
\<close>

definition heading_token :: "string \<Rightarrow> token" where
  "heading_token ty = \<lparr>type = ty, tag = ''h1'', markup = ''#'', content = [], attrs = []\<rparr>"

definition inline_token :: "string \<Rightarrow> token" where
  "inline_token c = \<lparr>type = ''inline'', tag = [], markup = [], content = c, attrs = []\<rparr>"

definition title_tokens :: "token list" where
  "title_tokens =
     [heading_token ''heading_open'', inline_token ''Title'', heading_token ''heading_close'',
      heading_token ''heading_open'', inline_token ''Title'', heading_token ''heading_close'']"

definition demo_link :: "string \<Rightarrow> token" where
  "demo_link h = \<lparr>type = ''link_open'', tag = ''a'', markup = [], content = [],
                  attrs = [(''href'', h)]\<rparr>"

definition demo_highlighter :: highlighter where
  "demo_highlighter =
     \<lparr>highlight = (\<lambda>text lang. ''<span>'' @ text @ ''</span>''),
      isSupportedLanguage = (\<lambda>l. l \<in> set [''typescript'', ''ts'', ''go'', ''rust'']),
      isLoadedLanguage = (\<lambda>l. l \<in> set [''typescript'', ''ts'', ''go''])\<rparr>"

definition demo_state :: "unit plugin_state" where
  "demo_state =
     \<lparr>logged = [], calls = [], defaultSlugger = None, theme_getSlugger = None,
      page = Some \<lparr>friendlyFullName = ''README'', pageHeadings = []\<rparr>,
      lastHeaderSlug = [], renderContext = None\<rparr>"

definition demo_externals :: "unit externals" where
  \<open>demo_externals =
     \<lparr>ext_unsafe = (\<lambda>c. c = CHR ''!''),
      ext_getTextContent = (\<lambda>t. t),
      ext_anchor = (\<lambda>c i. ''<a href="#'' @ i @ ''"></a>''),
      ext_renderToken = (\<lambda>ts i. ''<'' @ tag (ts ! i) @ ''>''),
      ext_default_rule = (\<lambda>ts i. content (ts ! i)),
      ext_renderInline = content,
      ext_parse = (\<lambda>t. [])\<rparr>\<close>

definition demo_subscriber :: "string \<Rightarrow> (unit, unit) subscriber" where
  "demo_subscriber suffix e s = Inr (e\<lparr>parsedText := parsedText e @ suffix\<rparr>, s)"

section \<open>Properties of the slug generator\<close>

lemma first_unused_unused: "suffixed base (first_unused base issued n) \<notin> set issued"
proof (induction base issued n rule: first_unused.induct)
  case (1 base issued n)
  then show ?case
    by (subst first_unused.simps) simp
qed

lemma first_unused_ge: "n \<le> first_unused base issued n"
proof (induction base issued n rule: first_unused.induct)
  case (1 base issued n)
  show ?case
  proof (cases "suffixed base n \<in> set issued")
    case True
    with 1 have "Suc n \<le> first_unused base issued (Suc n)" by simp
    with True show ?thesis by (subst first_unused.simps) simp
  next
    case False
    then show ?thesis by (subst first_unused.simps) simp
  qed
qed

lemma first_unused_below:
  "n \<le> k \<Longrightarrow> k < first_unused base issued n \<Longrightarrow> suffixed base k \<in> set issued"
proof (induction base issued n rule: first_unused.induct)
  case (1 base issued n)
  show ?case
  proof (cases "suffixed base n \<in> set issued")
    case True
    show ?thesis
    proof (cases "k = n")
      case True
      with \<open>suffixed base n \<in> set issued\<close> show ?thesis by simp
    next
      case False
      with "1.prems" have "Suc n \<le> k" by simp
      moreover from "1.prems" True have "k < first_unused base issued (Suc n)"
        by (subst (asm) first_unused.simps) simp
      ultimately show ?thesis using "1.IH" True by simp
    qed
  next
    case False
    with "1.prems" show ?thesis by (subst (asm) first_unused.simps) simp
  qed
qed

lemma first_unused_eqI:
  assumes "n \<le> k" and "suffixed base k \<notin> set issued"
    and "\<And>j. n \<le> j \<Longrightarrow> j < k \<Longrightarrow> suffixed base j \<in> set issued"
  shows "first_unused base issued n = k"
proof -
  let ?m = "first_unused base issued n"
  have "\<not> k < ?m" using first_unused_below [OF assms(1)] assms(2) by blast
  moreover have "\<not> ?m < k"
    using assms(3) [OF first_unused_ge] first_unused_unused by blast
  ultimately show ?thesis by simp
qed

lemma slug_fresh: "fst (slug unsafe t sl) \<notin> set sl"
  by (simp add: slug_def Let_def first_unused_unused)

lemma slug_state: "snd (slug unsafe t sl) = sl @ [fst (slug unsafe t sl)]"
  by (simp add: slug_def Let_def)

lemma slug_calls_state: "snd (slug_calls unsafe ts sl) = sl @ fst (slug_calls unsafe ts sl)"
proof (induction ts arbitrary: sl)
  case Nil
  show ?case by simp
next
  case (Cons t ts)
  show ?case
    using Cons.IH [of "snd (slug unsafe t sl)"]
    by (simp add: split_beta slug_state)
qed

lemma slug_calls_distinct:
  "distinct sl \<Longrightarrow> distinct (sl @ fst (slug_calls unsafe ts sl))"
proof (induction ts arbitrary: sl)
  case Nil
  then show ?case by simp
next
  case (Cons t ts)
  have d: "distinct (snd (slug unsafe t sl))"
    using Cons.prems slug_fresh [of unsafe t sl] by (simp add: slug_state)
  show ?case
    using Cons.IH [OF d] by (simp add: split_beta slug_state)
qed

lemma suffixed_neq_base: "suffixed base n \<noteq> base"
  by (simp add: suffixed_def)

lemma slug_repeat_step:
  assumes "1 \<le> k"
  shows "slug unsafe t (serialize unsafe t # map (suffixed (serialize unsafe t)) [1..<k])
       = (suffixed (serialize unsafe t) k,
          serialize unsafe t # map (suffixed (serialize unsafe t)) [1..<Suc k])"
proof -
  let ?b = "serialize unsafe t"
  let ?sl = "?b # map (suffixed ?b) [1..<k]"
  have "first_unused ?b ?sl 1 = k"
  proof (rule first_unused_eqI)
    show "1 \<le> k" by (rule assms)
    show "suffixed ?b k \<notin> set ?sl"
      using suffixed_neq_base [of ?b k] by (auto dest: suffixed_inj)
    show "suffixed ?b j \<in> set ?sl" if "1 \<le> j" and "j < k" for j
      using that by simp
  qed
  then show ?thesis using assms by (simp add: slug_def Let_def)
qed

lemma slug_calls_repeat_from:
  "1 \<le> k \<Longrightarrow>
   fst (slug_calls unsafe (replicate m t)
          (serialize unsafe t # map (suffixed (serialize unsafe t)) [1..<k]))
   = map (suffixed (serialize unsafe t)) [k..<k + m]"
proof (induction m arbitrary: k)
  case 0
  show ?case by simp
next
  case (Suc m)
  let ?b = "serialize unsafe t"
  have "1 \<le> Suc k" by simp
  from Suc.IH [OF this]
  have rest: "fst (slug_calls unsafe (replicate m t) (?b # map (suffixed ?b) [1..<Suc k]))
      = map (suffixed ?b) [Suc k..<Suc k + m]" .
  have "fst (slug_calls unsafe (replicate (Suc m) t) (?b # map (suffixed ?b) [1..<k]))
      = suffixed ?b k # map (suffixed ?b) [Suc k..<Suc k + m]"
    by (simp only: replicate_Suc slug_calls.simps slug_repeat_step [OF Suc.prems]
        Let_def split_conv fst_conv snd_conv rest split_beta)
  also have "\<dots> = map (suffixed ?b) [k..<k + Suc m]"
    by (simp add: upt_rec [of k])
  finally show ?case .
qed

lemma slug_calls_repeat:
  "fst (slug_calls unsafe (replicate (Suc n) t) new_Slugger)
   = serialize unsafe t # map (suffixed (serialize unsafe t)) [1..<Suc n]"
proof -
  let ?b = "serialize unsafe t"
  have first: "slug unsafe t new_Slugger = (?b, ?b # map (suffixed ?b) [1..<1])"
    by (simp add: slug_def new_Slugger_def Let_def)
  have "fst (slug_calls unsafe (replicate (Suc n) t) new_Slugger)
      = ?b # fst (slug_calls unsafe (replicate n t) (?b # map (suffixed ?b) [1..<1]))"
    by (simp only: replicate_Suc slug_calls.simps first Let_def split_conv fst_conv snd_conv split_beta)
  also have "\<dots> = ?b # map (suffixed ?b) [1..<1 + n]"
    using slug_calls_repeat_from [of 1 unsafe n t] by simp
  finally show ?thesis by simp
qed

lemma serialize_Title:
  assumes "\<forall>c \<in> set ''title''. \<not> unsafe c"
  shows "serialize unsafe ''Title'' = ''title''"
proof -
  have "collapse_ws (toLowerCase ''Title'') = ''title''" by code_simp
  then show ?thesis using assms by (simp add: serialize_def)
qed

lemma suffixed_title: "suffixed ''title'' 1 = ''title-1''" "suffixed ''title'' 2 = ''title-2''"
  by code_simp+

lemma slug_Title:
  assumes "\<forall>c \<in> set ''title''. \<not> unsafe c"
  shows "fst (slug_calls unsafe [''Title'', ''Title'', ''Title''] new_Slugger)
     = [''title'', ''title-1'', ''title-2'']"
proof -
  have "[''Title'', ''Title'', ''Title''] = replicate (Suc 2) ''Title''"
    by (simp add: numeral_2_eq_2)
  moreover have "[1..<Suc 2] = [1, 2]" by (simp add: upt_rec)
  ultimately show ?thesis
    by (simp only: slug_calls_repeat serialize_Title [OF assms] suffixed_title list.map)
qed

lemma slug_calls_mono: "set sl \<subseteq> set (snd (slug_calls unsafe ts sl))"
  by (simp add: slug_calls_state)

lemma slug_suffix_increases:
  assumes "slug unsafe t sl = (s1, sl1)"
    and "set sl1 \<subseteq> set sl2"
    and "slug unsafe t sl2 = (s2, sl3)"
  shows "\<exists>j\<ge>1. s2 = suffixed (serialize unsafe t) j \<and>
           (s1 = serialize unsafe t \<or> (\<exists>i\<ge>1. i < j \<and> s1 = suffixed (serialize unsafe t) i))"
proof -
  let ?b = "serialize unsafe t"
  let ?j = "first_unused ?b sl2 1"
  have s1_in: "s1 \<in> set sl2" using assms(1,2) by (auto simp: slug_def Let_def)
  have b_in1: "?b \<in> set sl1" using assms(1) by (auto simp: slug_def Let_def split: if_splits)
  then have b_in: "?b \<in> set sl2" using assms(2) by blast
  then have s2: "s2 = suffixed ?b ?j" using assms(3) by (auto simp: slug_def Let_def)
  have j1: "1 \<le> ?j" by (rule first_unused_ge)
  have "s1 = ?b \<or> (\<exists>i\<ge>1. i < ?j \<and> s1 = suffixed ?b i)"
  proof (cases "?b \<in> set sl")
    case False
    then show ?thesis using assms(1) by (auto simp: slug_def Let_def)
  next
    case True
    let ?i = "first_unused ?b sl 1"
    from True have s1: "s1 = suffixed ?b ?i" using assms(1) by (auto simp: slug_def Let_def)
    have "1 \<le> ?i" by (rule first_unused_ge)
    moreover have "?i < ?j"
    proof (rule ccontr)
      assume "\<not> ?i < ?j"
      then have "?j \<le> ?i" by simp
      have "suffixed ?b ?j \<in> set sl2"
      proof (cases "?j = ?i")
        case True
        then show ?thesis using s1 s1_in by simp
      next
        case False
        with \<open>?j \<le> ?i\<close> have "?j < ?i" by simp
        from first_unused_below [OF j1 this] have "suffixed ?b ?j \<in> set sl" .
        moreover have "set sl \<subseteq> set sl1" using assms(1) by (auto simp: slug_def Let_def)
        ultimately show ?thesis using assms(2) by blast
      qed
      then show False using first_unused_unused by blast
    qed
    ultimately show ?thesis using s1 by blast
  qed
  with s2 j1 show ?thesis by blast
qed

lemma slug_calls_fresh_distinct: "distinct (fst (slug_calls unsafe ts new_Slugger))"
  using slug_calls_distinct [of new_Slugger unsafe ts] by (simp add: new_Slugger_def)

lemma slug_calls_fresh_state:
  "snd (slug_calls unsafe ts new_Slugger) = fst (slug_calls unsafe ts new_Slugger)"
  by (simp add: slug_calls_state new_Slugger_def)

lemma slug_later_suffix:
  assumes "slug unsafe t sl = (s1, sl1)"
    and "slug unsafe t (snd (slug_calls unsafe ts sl1)) = (s2, sl3)"
  shows "\<exists>j\<ge>1. s2 = suffixed (serialize unsafe t) j \<and>
           (s1 = serialize unsafe t \<or> (\<exists>i\<ge>1. i < j \<and> s1 = suffixed (serialize unsafe t) i))"
  using slug_suffix_increases [OF assms(1) slug_calls_mono assms(2)] .

text \<open>
  C2. On one instance the slug returned is a function of the text and of the slugs issued
  before, which are exactly the results of the earlier calls. The results of any run of
  calls on a new instance are pairwise different. Calling with the same text \<open>n + 1\<close>
  times on a new instance returns the base slug and then the base with the suffixes
  \<open>-1\<close>, ..., \<open>-n\<close>; after any history, a later call with a text already used gets a
  numeric suffix strictly larger than the one the earlier call got. With no letter of
  \<open>title\<close> unsafe, three calls with \<open>Title\<close> return \<open>title\<close>, \<open>title-1\<close>, \<open>title-2\<close>.
\<close>

theorem slug_deterministic_increasing_unique:
  "(\<forall>ts. snd (slug_calls unsafe ts new_Slugger) = fst (slug_calls unsafe ts new_Slugger)
        \<and> distinct (fst (slug_calls unsafe ts new_Slugger)))
   \<and> (\<forall>t n. fst (slug_calls unsafe (replicate (Suc n) t) new_Slugger)
          = serialize unsafe t # map (suffixed (serialize unsafe t)) [1..<Suc n])
   \<and> (\<forall>t sl ts s1 sl1 s2 sl3.
         slug unsafe t sl = (s1, sl1) \<and> slug unsafe t (snd (slug_calls unsafe ts sl1)) = (s2, sl3)
         \<longrightarrow> (\<exists>j\<ge>1. s2 = suffixed (serialize unsafe t) j \<and>
                (s1 = serialize unsafe t \<or>
                 (\<exists>i\<ge>1. i < j \<and> s1 = suffixed (serialize unsafe t) i))))
   \<and> ((\<forall>c \<in> set ''title''. \<not> unsafe c)
        \<longrightarrow> fst (slug_calls unsafe [''Title'', ''Title'', ''Title''] new_Slugger)
            = [''title'', ''title-1'', ''title-2''])"
proof (intro conjI allI impI)
  fix ts
  show "snd (slug_calls unsafe ts new_Slugger) = fst (slug_calls unsafe ts new_Slugger)"
    by (rule slug_calls_fresh_state)
  show "distinct (fst (slug_calls unsafe ts new_Slugger))"
    by (rule slug_calls_fresh_distinct)
next
  fix t n
  show "fst (slug_calls unsafe (replicate (Suc n) t) new_Slugger)
      = serialize unsafe t # map (suffixed (serialize unsafe t)) [1..<Suc n]"
    by (rule slug_calls_repeat)
next
  fix t sl ts s1 sl1 s2 sl3
  assume "slug unsafe t sl = (s1, sl1) \<and> slug unsafe t (snd (slug_calls unsafe ts sl1)) = (s2, sl3)"
  then show "\<exists>j\<ge>1. s2 = suffixed (serialize unsafe t) j \<and>
      (s1 = serialize unsafe t \<or> (\<exists>i\<ge>1. i < j \<and> s1 = suffixed (serialize unsafe t) i))"
    using slug_later_suffix by blast
next
  assume "\<forall>c \<in> set ''title''. \<not> unsafe c"
  then show "fst (slug_calls unsafe [''Title'', ''Title'', ''Title''] new_Slugger)
      = [''title'', ''title-1'', ''title-2'']"
    by (rule slug_Title)
qed

theorem slug_deterministic_increasing_unique_witness:
  "fst (slug_calls (\<lambda>c. c = CHR ''!'') [''Title'', ''Title'', ''Title''] new_Slugger)
       = [''title'', ''title-1'', ''title-2'']
   \<and> slug (\<lambda>c. c = CHR ''!'') ''Title'' [] = (''title'', [''title''])
   \<and> slug (\<lambda>c. c = CHR ''!'') ''Title'' (snd (slug_calls (\<lambda>c. c = CHR ''!'') [''a b''] [''title'']))
       = (''title-1'', [''title'', ''a-b'', ''title-1''])"
proof -
  have h: "\<forall>c \<in> set ''title''. \<not> (\<lambda>c. c = CHR ''!'') c" by simp
  have a: "slug (\<lambda>c. c = CHR ''!'') ''Title'' [] = (''title'', [''title''])" by code_simp
  have b: "slug (\<lambda>c. c = CHR ''!'') ''Title'' (snd (slug_calls (\<lambda>c. c = CHR ''!'') [''a b''] [''title'']))
       = (''title-1'', [''title'', ''a-b'', ''title-1''])" by code_simp
  from slug_deterministic_increasing_unique [of "\<lambda>c. c = CHR ''!''"] h a b
  show ?thesis by blast
qed

section \<open>Properties of getHighlighted\<close>

lemma getHighlighted_unsupported:
  assumes "\<not> isSupportedLanguage hl (requested_language lang)"
  shows "getHighlighted hl text lang s =
     (text, s\<lparr>calls := calls s @ [call_isSupportedLanguage (requested_language lang)],
              logged := logged s @ [unsupported_highlight_language_0_not_highlighted_in_comment_for_1
                  (requested_language lang) (page_name s)]\<rparr>)"
  using assms by (simp add: getHighlighted_def requested_language_def Let_def page_name_def)

lemma getHighlighted_unloaded:
  assumes "isSupportedLanguage hl (requested_language lang)"
    and "\<not> isLoadedLanguage hl (requested_language lang)"
  shows "getHighlighted hl text lang s =
     (text, s\<lparr>calls := calls s @ [call_isSupportedLanguage (requested_language lang),
                                   call_isLoadedLanguage (requested_language lang)],
              logged := logged s @ [unloaded_language_0_not_highlighted_in_comment_for_1
                  (requested_language lang) (page_name s)]\<rparr>)"
  using assms by (simp add: getHighlighted_def requested_language_def Let_def page_name_def)

lemma getHighlighted_loaded:
  assumes "isSupportedLanguage hl (requested_language lang)"
    and "isLoadedLanguage hl (requested_language lang)"
  shows "getHighlighted hl text lang s =
     (highlight hl text (requested_language lang),
      s\<lparr>calls := calls s @ [call_isSupportedLanguage (requested_language lang),
                             call_isLoadedLanguage (requested_language lang),
                             call_highlight text (requested_language lang)]\<rparr>)"
  using assms by (simp add: getHighlighted_def requested_language_def Let_def page_name_def)

lemma requested_cobol: "requested_language (Some ''cobol'') = ''cobol''"
  unfolding requested_language_def by code_simp

text \<open>
  C4. With an unsupported language \<open>getHighlighted\<close> returns the text unchanged and logs
  exactly one warning, which names the language and the document (the page's friendly
  full name, or \<open>(unknown)\<close> without a page). With a supported language that is not
  loaded it returns the text unchanged and logs exactly one warning of another kind.
  Otherwise it returns what the highlighter returns and logs nothing. These are all
  the cases and each one returns: the method has no raising branch. For \<open>cobol\<close>,
  unsupported, the text comes back with one warning.
\<close>

theorem getHighlighted_warns_and_degrades:
  "(\<not> isSupportedLanguage hl (requested_language lang) \<longrightarrow>
      getHighlighted hl text lang s =
        (text, s\<lparr>calls := calls s @ [call_isSupportedLanguage (requested_language lang)],
                 logged := logged s @
                   [unsupported_highlight_language_0_not_highlighted_in_comment_for_1
                      (requested_language lang) (page_name s)]\<rparr>))
   \<and> (isSupportedLanguage hl (requested_language lang)
        \<and> \<not> isLoadedLanguage hl (requested_language lang) \<longrightarrow>
      getHighlighted hl text lang s =
        (text, s\<lparr>calls := calls s @ [call_isSupportedLanguage (requested_language lang),
                                      call_isLoadedLanguage (requested_language lang)],
                 logged := logged s @
                   [unloaded_language_0_not_highlighted_in_comment_for_1
                      (requested_language lang) (page_name s)]\<rparr>))
   \<and> (isSupportedLanguage hl (requested_language lang)
        \<and> isLoadedLanguage hl (requested_language lang) \<longrightarrow>
      fst (getHighlighted hl text lang s) = highlight hl text (requested_language lang)
      \<and> logged (snd (getHighlighted hl text lang s)) = logged s)
   \<and> unsupported_highlight_language_0_not_highlighted_in_comment_for_1 l d
       \<noteq> unloaded_language_0_not_highlighted_in_comment_for_1 l d
   \<and> (\<not> isSupportedLanguage hl ''cobol'' \<longrightarrow>
        fst (getHighlighted hl text (Some ''cobol'') s) = text
        \<and> logged (snd (getHighlighted hl text (Some ''cobol'') s)) = logged s @
            [unsupported_highlight_language_0_not_highlighted_in_comment_for_1 ''cobol'' (page_name s)])
   \<and> page_name s = (case page s of None \<Rightarrow> ''(unknown)'' | Some p \<Rightarrow> friendlyFullName p)"
proof (intro conjI impI)
  assume "\<not> isSupportedLanguage hl (requested_language lang)"
  then show "getHighlighted hl text lang s =
        (text, s\<lparr>calls := calls s @ [call_isSupportedLanguage (requested_language lang)],
                 logged := logged s @
                   [unsupported_highlight_language_0_not_highlighted_in_comment_for_1
                      (requested_language lang) (page_name s)]\<rparr>)"
    by (rule getHighlighted_unsupported)
next
  assume "isSupportedLanguage hl (requested_language lang)
        \<and> \<not> isLoadedLanguage hl (requested_language lang)"
  then show "getHighlighted hl text lang s =
        (text, s\<lparr>calls := calls s @ [call_isSupportedLanguage (requested_language lang),
                                      call_isLoadedLanguage (requested_language lang)],
                 logged := logged s @
                   [unloaded_language_0_not_highlighted_in_comment_for_1
                      (requested_language lang) (page_name s)]\<rparr>)"
    by (simp add: getHighlighted_unloaded)
next
  assume a: "isSupportedLanguage hl (requested_language lang)
        \<and> isLoadedLanguage hl (requested_language lang)"
  then show "fst (getHighlighted hl text lang s) = highlight hl text (requested_language lang)"
    by (simp add: getHighlighted_loaded)
  from a show "logged (snd (getHighlighted hl text lang s)) = logged s"
    by (simp add: getHighlighted_loaded)
next
  show "unsupported_highlight_language_0_not_highlighted_in_comment_for_1 l d
       \<noteq> unloaded_language_0_not_highlighted_in_comment_for_1 l d"
    by simp
next
  assume a: "\<not> isSupportedLanguage hl ''cobol''"
  then have b: "\<not> isSupportedLanguage hl (requested_language (Some ''cobol''))"
    by (simp only: requested_cobol not_False_eq_True)
  show "fst (getHighlighted hl text (Some ''cobol'') s) = text"
    by (simp only: getHighlighted_unsupported [OF b] fst_conv)
  show "logged (snd (getHighlighted hl text (Some ''cobol'') s)) = logged s @
            [unsupported_highlight_language_0_not_highlighted_in_comment_for_1 ''cobol'' (page_name s)]"
    by (simp add: getHighlighted_unsupported [OF b] requested_cobol)
next
  show "page_name s = (case page s of None \<Rightarrow> ''(unknown)'' | Some p \<Rightarrow> friendlyFullName p)"
    by (simp add: page_name_def)
qed

theorem getHighlighted_warns_and_degrades_witness:
  "getHighlighted demo_highlighter ''x = 1'' (Some ''COBOL'') demo_state =
     (''x = 1'',
      demo_state\<lparr>calls := [call_isSupportedLanguage ''cobol''],
                 logged := [unsupported_highlight_language_0_not_highlighted_in_comment_for_1
                              ''cobol'' ''README'']\<rparr>)
   \<and> getHighlighted demo_highlighter ''x = 1'' (Some ''Rust'') demo_state =
     (''x = 1'',
      demo_state\<lparr>calls := [call_isSupportedLanguage ''rust'', call_isLoadedLanguage ''rust''],
                 logged := [unloaded_language_0_not_highlighted_in_comment_for_1
                              ''rust'' ''README'']\<rparr>)
   \<and> fst (getHighlighted demo_highlighter ''x = 1'' None demo_state) = ''<span>x = 1</span>''"
proof -
  have r1: "requested_language (Some ''COBOL'') = ''cobol''"
    unfolding requested_language_def by code_simp
  have r2: "requested_language (Some ''Rust'') = ''rust''"
    unfolding requested_language_def by code_simp
  have r3: "requested_language None = ''typescript''"
    unfolding requested_language_def by code_simp
  have pn: "page_name demo_state = ''README''"
    by (simp add: page_name_def demo_state_def)
  have c: "calls demo_state = []" "logged demo_state = []"
    by (simp_all add: demo_state_def)
  have h1: "\<not> isSupportedLanguage demo_highlighter ''cobol''"
    by (simp add: demo_highlighter_def)
  have h2: "isSupportedLanguage demo_highlighter ''rust'' \<and> \<not> isLoadedLanguage demo_highlighter ''rust''"
    by (simp add: demo_highlighter_def)
  have h3: "isSupportedLanguage demo_highlighter ''typescript'' \<and> isLoadedLanguage demo_highlighter ''typescript''"
    by (simp add: demo_highlighter_def)
  have hl: "highlight demo_highlighter ''x = 1'' ''typescript'' = ''<span>x = 1</span>''"
    by (simp add: demo_highlighter_def)
  note t1 = getHighlighted_warns_and_degrades
      [of demo_highlighter "Some ''COBOL''" "''x = 1''" demo_state, unfolded r1 pn c append_Nil]
  note t2 = getHighlighted_warns_and_degrades
      [of demo_highlighter "Some ''Rust''" "''x = 1''" demo_state, unfolded r2 pn c append_Nil]
  note t3 = getHighlighted_warns_and_degrades
      [of demo_highlighter "None" "''x = 1''" demo_state, unfolded r3 pn c append_Nil]
  from t1 h1 have a: "getHighlighted demo_highlighter ''x = 1'' (Some ''COBOL'') demo_state =
     (''x = 1'',
      demo_state\<lparr>calls := [call_isSupportedLanguage ''cobol''],
                 logged := [unsupported_highlight_language_0_not_highlighted_in_comment_for_1
                              ''cobol'' ''README'']\<rparr>)" by blast
  from t2 h2 have b: "getHighlighted demo_highlighter ''x = 1'' (Some ''Rust'') demo_state =
     (''x = 1'',
      demo_state\<lparr>calls := [call_isSupportedLanguage ''rust'', call_isLoadedLanguage ''rust''],
                 logged := [unloaded_language_0_not_highlighted_in_comment_for_1
                              ''rust'' ''README'']\<rparr>)" by blast
  from t3 h3 have "fst (getHighlighted demo_highlighter ''x = 1'' None demo_state)
      = highlight demo_highlighter ''x = 1'' ''typescript''" by blast
  then have d: "fst (getHighlighted demo_highlighter ''x = 1'' None demo_state) = ''<span>x = 1</span>''"
    by (simp only: hl)
  from a b d show ?thesis by blast
qed

lemma lower_char_idem: "lower_char (lower_char c) = lower_char c"
  by (auto simp: lower_char_def Let_def)

lemma toLowerCase_idem: "toLowerCase (toLowerCase l) = toLowerCase l"
  by (simp add: toLowerCase_def lower_char_idem)

lemma toLowerCase_Nil_iff: "toLowerCase l = [] \<longleftrightarrow> l = []"
  by (simp add: toLowerCase_def)

lemma requested_language_lower:
  "requested_language (map_option toLowerCase lang) = requested_language lang"
  by (cases lang) (simp_all add: requested_language_def toLowerCase_idem toLowerCase_Nil_iff)

lemma getHighlighted_requested:
  "requested_language a = requested_language b \<Longrightarrow> getHighlighted hl text a s = getHighlighted hl text b s"
  by (simp add: getHighlighted_def requested_language_def Let_def)

lemma toLowerCase_examples:
  "toLowerCase ''COBOL'' = ''cobol''"
  "toLowerCase [CHR 0xC9] = [CHR 0xE9]"
  "toLowerCase [CHR 0xE9] = [CHR 0xE9]"
  "toLowerCase [CHR 0xD7] = [CHR 0xD7]"
  by code_simp+

text \<open>
  C9. \<open>getHighlighted\<close> gives the same result and the same state for a language tag and
  for its lowercase form, whether the tag is present or not, and for every tag: the
  capitals beyond ASCII are lowercased as well, so that the tag U+00C9 is treated as the
  tag U+00E9 is, and \<open>COBOL\<close> as \<open>cobol\<close>.
\<close>

theorem getHighlighted_case_insensitive:
  "getHighlighted hl text (Some lang) s = getHighlighted hl text (Some (toLowerCase lang)) s
   \<and> getHighlighted hl text l s = getHighlighted hl text (map_option toLowerCase l) s
   \<and> toLowerCase (toLowerCase lang) = toLowerCase lang
   \<and> getHighlighted hl text (Some ''COBOL'') s = getHighlighted hl text (Some ''cobol'') s
   \<and> getHighlighted hl text (Some [CHR 0xC9]) s = getHighlighted hl text (Some [CHR 0xE9]) s"
proof (intro conjI)
  have one: "getHighlighted hl text (Some a) s = getHighlighted hl text (Some (toLowerCase a)) s" for a
  proof -
    have "requested_language (Some a) = requested_language (map_option toLowerCase (Some a))"
      by (rule requested_language_lower [symmetric])
    then show ?thesis using getHighlighted_requested by fastforce
  qed
  show "getHighlighted hl text (Some lang) s = getHighlighted hl text (Some (toLowerCase lang)) s"
    by (rule one)
  have "requested_language l = requested_language (map_option toLowerCase l)"
    by (rule requested_language_lower [symmetric])
  then show "getHighlighted hl text l s = getHighlighted hl text (map_option toLowerCase l) s"
    by (rule getHighlighted_requested)
  show "toLowerCase (toLowerCase lang) = toLowerCase lang"
    by (rule toLowerCase_idem)
  show "getHighlighted hl text (Some ''COBOL'') s = getHighlighted hl text (Some ''cobol'') s"
    using one [of "''COBOL''"] by (simp only: toLowerCase_examples)
  show "getHighlighted hl text (Some [CHR 0xC9]) s = getHighlighted hl text (Some [CHR 0xE9]) s"
    using one [of "[CHR 0xC9]"] by (simp only: toLowerCase_examples)
qed

section \<open>Properties of the code-fence hook\<close>

lemma replace_final_newline_append:
  "replace_final_newline r @ [CHR 0x0A] = (if r \<noteq> [] \<and> last r = CHR 0x0A then r else r @ [CHR 0x0A])"
proof (cases "r \<noteq> [] \<and> last r = CHR 0x0A")
  case True
  then have "butlast r @ [CHR 0x0A] = r"
    using append_butlast_last_id [of r] by simp
  with True show ?thesis by (simp add: replace_final_newline_def)
next
  case False
  then show ?thesis by (auto simp: replace_final_newline_def)
qed

lemma replace_final_newline_cons:
  "replace_final_newline r @ CHR 0x0A # rest = with_final_newline r @ rest"
  using replace_final_newline_append [of r] by (simp add: with_final_newline_def)

lemma fence_highlight_bare:
  \<open>fst (fence_highlight hl escapeHtml code [] s) =
     ''<pre><code>'' @ replace_final_newline (highlight hl code ''ts'') @ [CHR 0x0A] @
     ''</code><button>Copy</button></pre>'' @ [CHR 0x0A]\<close>
  by (simp add: fence_highlight_def Let_def)

lemma fence_highlight_lang:
  \<open>lang \<noteq> [] \<Longrightarrow> fst (fence_highlight hl escapeHtml code lang s) =
     ''<pre><code class="'' @ escapeHtml lang @ ''">'' @
     replace_final_newline (highlight hl code lang) @ [CHR 0x0A] @
     ''</code><button type="button">Copy</button></pre>'' @ [CHR 0x0A]\<close>
  by (simp add: fence_highlight_def Let_def)

text \<open>
  C5. The hook wraps the highlighter's result, with one final line feed taken off and
  one put back, so that it ends with a line feed that is added only when missing.
  Without a language tag the result is inside a bare \<open>pre\<close> and \<open>code\<close> element, with no
  class attribute, followed by the copy button; with a tag, \<open>go\<close> for one, the \<open>code\<close>
  element has the escaped tag as its class.
\<close>

theorem fence_highlight_wraps:
  \<open>fst (fence_highlight hl escapeHtml code [] s) =
       ''<pre><code>'' @ with_final_newline (highlight hl code ''ts'') @
       ''</code><button>Copy</button></pre>'' @ [CHR 0x0A]
   \<and> (lang \<noteq> [] \<longrightarrow>
        fst (fence_highlight hl escapeHtml code lang s) =
          ''<pre><code class="'' @ escapeHtml lang @ ''">'' @
          with_final_newline (highlight hl code lang) @
          ''</code><button type="button">Copy</button></pre>'' @ [CHR 0x0A])
   \<and> fst (fence_highlight hl escapeHtml code ''go'' s) =
          ''<pre><code class="'' @ escapeHtml ''go'' @ ''">'' @
          with_final_newline (highlight hl code ''go'') @
          ''</code><button type="button">Copy</button></pre>'' @ [CHR 0x0A]
   \<and> with_final_newline (r @ [CHR 0x0A]) = r @ [CHR 0x0A]
   \<and> (r = [] \<or> last r \<noteq> CHR 0x0A \<longrightarrow> with_final_newline r = r @ [CHR 0x0A])\<close>
  by (simp add: fence_highlight_bare fence_highlight_lang replace_final_newline_cons
      with_final_newline_def)

theorem fence_highlight_wraps_witness:
  \<open>fst (fence_highlight demo_highlighter (\<lambda>t. t) ''x := 1'' ''go'' demo_state) =
     ''<pre><code class="go"><span>x := 1</span>'' @ [CHR 0x0A] @
     ''</code><button type="button">Copy</button></pre>'' @ [CHR 0x0A]
   \<and> with_final_newline ''a'' = ''a'' @ [CHR 0x0A]\<close>
proof -
  have "''go'' \<noteq> []" by simp
  moreover have "''a'' = [] \<or> last ''a'' \<noteq> CHR 0x0A" by simp
  moreover have "with_final_newline (highlight demo_highlighter ''x := 1'' ''go'') = ''<span>x := 1</span>'' @ [CHR 0x0A]"
    by (simp add: with_final_newline_def demo_highlighter_def)
  ultimately show ?thesis
    using fence_highlight_wraps [of demo_highlighter "\<lambda>t. t" "''x := 1''" demo_state "''go''" "''a''"]
    by simp
qed

text \<open>
  C6. The hook makes exactly one call, to \<open>highlight\<close>, with the fence's language tag or
  \<open>ts\<close> when there is none; it logs nothing, its result contains what \<open>highlight\<close>
  returned, and neither depends on \<open>isSupportedLanguage\<close> or \<open>isLoadedLanguage\<close>. For an
  unsupported language \<open>getHighlighted\<close> instead stops after the support check and
  returns the code as it is.
\<close>

theorem fence_highlight_unconditional:
  "calls (snd (fence_highlight hl escapeHtml code lang s))
      = calls s @ [call_highlight code (if lang = [] then ''ts'' else lang)]
   \<and> logged (snd (fence_highlight hl escapeHtml code lang s)) = logged s
   \<and> fence_highlight (hl\<lparr>isSupportedLanguage := f, isLoadedLanguage := g\<rparr>) escapeHtml code lang s
      = fence_highlight hl escapeHtml code lang s
   \<and> (\<exists>pre post. fst (fence_highlight hl escapeHtml code lang s)
         = pre @ with_final_newline (highlight hl code (if lang = [] then ''ts'' else lang)) @ post)
   \<and> (\<not> isSupportedLanguage hl (requested_language (Some lang)) \<longrightarrow>
        getHighlighted hl code (Some lang) s =
          (code, s\<lparr>calls := calls s @ [call_isSupportedLanguage (requested_language (Some lang))],
                   logged := logged s @
                     [unsupported_highlight_language_0_not_highlighted_in_comment_for_1
                        (requested_language (Some lang)) (page_name s)]\<rparr>))"
proof (intro conjI impI)
  show "calls (snd (fence_highlight hl escapeHtml code lang s))
      = calls s @ [call_highlight code (if lang = [] then ''ts'' else lang)]"
    by (simp add: fence_highlight_def Let_def)
  show "logged (snd (fence_highlight hl escapeHtml code lang s)) = logged s"
    by (simp add: fence_highlight_def Let_def)
  show "fence_highlight (hl\<lparr>isSupportedLanguage := f, isLoadedLanguage := g\<rparr>) escapeHtml code lang s
      = fence_highlight hl escapeHtml code lang s"
    by (simp add: fence_highlight_def Let_def)
  show "\<exists>pre post. fst (fence_highlight hl escapeHtml code lang s)
         = pre @ with_final_newline (highlight hl code (if lang = [] then ''ts'' else lang)) @ post"
  proof (cases "lang = []")
    case True
    have \<open>fst (fence_highlight hl escapeHtml code lang s)
         = ''<pre><code>'' @ with_final_newline (highlight hl code (if lang = [] then ''ts'' else lang))
           @ (''</code><button>Copy</button></pre>'' @ [CHR 0x0A])\<close>
      using True by (simp add: fence_highlight_bare replace_final_newline_cons)
    then show ?thesis by blast
  next
    case False
    have \<open>fst (fence_highlight hl escapeHtml code lang s)
         = (''<pre><code class="'' @ escapeHtml lang @ ''">'')
           @ with_final_newline (highlight hl code (if lang = [] then ''ts'' else lang))
           @ (''</code><button type="button">Copy</button></pre>'' @ [CHR 0x0A])\<close>
      using False by (simp add: fence_highlight_lang replace_final_newline_cons)
    then show ?thesis by blast
  qed
next
  assume "\<not> isSupportedLanguage hl (requested_language (Some lang))"
  then show "getHighlighted hl code (Some lang) s =
          (code, s\<lparr>calls := calls s @ [call_isSupportedLanguage (requested_language (Some lang))],
                   logged := logged s @
                     [unsupported_highlight_language_0_not_highlighted_in_comment_for_1
                        (requested_language (Some lang)) (page_name s)]\<rparr>)"
    by (rule getHighlighted_unsupported)
qed

theorem fence_highlight_unconditional_witness:
  "calls (snd (fence_highlight demo_highlighter (\<lambda>t. t) ''IDENTIFICATION DIVISION.'' ''cobol'' demo_state))
      = [call_highlight ''IDENTIFICATION DIVISION.'' ''cobol'']
   \<and> calls (snd (getHighlighted demo_highlighter ''IDENTIFICATION DIVISION.'' (Some ''cobol'') demo_state))
      = [call_isSupportedLanguage ''cobol'']
   \<and> fst (getHighlighted demo_highlighter ''IDENTIFICATION DIVISION.'' (Some ''cobol'') demo_state)
      = ''IDENTIFICATION DIVISION.''"
proof -
  have r: "requested_language (Some ''cobol'') = ''cobol''"
    unfolding requested_language_def by code_simp
  have h: "\<not> isSupportedLanguage demo_highlighter (requested_language (Some ''cobol''))"
    by (simp add: r demo_highlighter_def)
  have c: "calls demo_state = []" by (simp add: demo_state_def)
  from h fence_highlight_unconditional
      [of demo_highlighter "\<lambda>t. t" "''IDENTIFICATION DIVISION.''" "''cobol''" demo_state]
  show ?thesis by (simp add: r c)
qed

section \<open>Properties of link_open\<close>

lemma match_dot_plus_Some:
  assumes "t \<noteq> []" and "\<not> is_line_terminator (hd t)"
  shows "\<exists>g rest. match_dot_plus t = Some (g, rest) \<and> g @ rest = t"
proof -
  obtain c cs where t: "t = c # cs" using assms(1) by (cases t) auto
  with assms(2) have "takeWhile (\<lambda>c. \<not> is_line_terminator c) t \<noteq> []" by simp
  then show ?thesis by (simp add: match_dot_plus_def Let_def)
qed

lemma replace_href_md:
  assumes "t \<noteq> []" and "\<not> is_line_terminator (hd t)"
  shows "replace_href (''#md:'' @ t) = ''#md:'' @ t"
proof -
  from match_dot_plus_Some [OF assms] obtain g rest
    where m: "match_dot_plus t = Some (g, rest)" and gr: "g @ rest = t" by blast
  have "match_href (''#md:'' @ t) = Some (g, rest)"
    by (simp add: match_href_def m)
  then show ?thesis using gr by (simp add: replace_href_def)
qed

lemma replace_href_plain:
  assumes "t \<noteq> []" and "\<not> is_line_terminator (hd t)" and "take 3 t \<noteq> ''md:''"
  shows "replace_href (''#'' @ t) = ''#md:'' @ t"
proof -
  from match_dot_plus_Some [OF assms(1,2)] obtain g rest
    where m: "match_dot_plus t = Some (g, rest)" and gr: "g @ rest = t" by blast
  have "match_href (''#'' @ t) = Some (g, rest)"
    using assms(3) by (simp add: match_href_def m)
  then show ?thesis using gr by (simp add: replace_href_def)
qed

lemma replace_href_other:
  assumes "h = [] \<or> hd h \<noteq> CHR ''#''"
  shows "replace_href h = h"
  using assms by (cases h) (auto simp: replace_href_def match_href_def)

lemma replace_href_hash: "replace_href ''#'' = ''#''"
  by (simp add: replace_href_def match_href_def match_dot_plus_def)

lemma replace_href_examples:
  "replace_href ''#foo'' = ''#md:foo''"
  "replace_href ''#md:foo'' = ''#md:foo''"
  "replace_href ''https://example.com'' = ''https://example.com''"
  by (simp_all add: replace_href_def match_href_def match_dot_plus_def is_line_terminator_def)

text \<open>
  When nothing that \<open>(.+)\<close> can take follows \<open>#md:\<close>, the optional prefix is given up
  and \<open>md:\<close> itself is the group.
\<close>

lemma replace_href_md_only: "replace_href ''#md:'' = ''#md:md:''"
  by (simp add: replace_href_def match_href_def match_dot_plus_def is_line_terminator_def)

lemma map_of_attrs_set: "map_of (attrs_set as name v) name = Some v"
  by (induction as name v rule: attrs_set.induct) auto

lemma attrs_set_same: "map_of as name = Some v \<Longrightarrow> attrs_set as name v = as"
  by (induction as name v rule: attrs_set.induct) (auto split: if_splits)

lemma attrGet_attrSet: "attrGet (attrSet t name v) name = Some v"
  by (simp add: attrGet_def attrSet_def map_of_attrs_set)

lemma attrSet_same: "attrGet t name = Some v \<Longrightarrow> attrSet t name v = t"
  by (simp add: attrGet_def attrSet_def attrs_set_same)

lemma link_open_href:
  assumes "idx < length tokens" and "attrGet (tokens ! idx) ''href'' = Some h"
  shows "link_open renderToken tokens idx =
      Inr (renderToken (tokens[idx := attrSet (tokens ! idx) ''href'' (replace_href h)]) idx,
           tokens[idx := attrSet (tokens ! idx) ''href'' (replace_href h)])"
proof (cases "replace_href h = []")
  case True
  have "h = []"
  proof (rule ccontr)
    assume "h \<noteq> []"
    then show False using True
      by (cases h) (auto simp: replace_href_def split: option.splits)
  qed
  with assms(2) True have "attrSet (tokens ! idx) ''href'' (replace_href h) = tokens ! idx"
    by (simp add: attrSet_same)
  then have "tokens[idx := attrSet (tokens ! idx) ''href'' (replace_href h)] = tokens"
    by simp
  then show ?thesis using assms True by (simp add: link_open_def Let_def)
next
  case False
  then show ?thesis using assms by (simp add: link_open_def Let_def)
qed

lemma link_open_no_href:
  assumes "idx < length tokens" and "attrGet (tokens ! idx) ''href'' = None"
  shows "link_open renderToken tokens idx = Inr (renderToken tokens idx, tokens)"
  using assms by (simp add: link_open_def Let_def)

lemma link_open_unchanged:
  assumes "idx < length tokens" and "attrGet (tokens ! idx) ''href'' = Some h"
    and "replace_href h = h"
  shows "link_open renderToken tokens idx = Inr (renderToken tokens idx, tokens)"
proof -
  from assms(2,3) have "attrSet (tokens ! idx) ''href'' (replace_href h) = tokens ! idx"
    by (simp add: attrSet_same)
  then have "tokens[idx := attrSet (tokens ! idx) ''href'' (replace_href h)] = tokens"
    by simp
  then show ?thesis using link_open_href [OF assms(1,2), of renderToken] by simp
qed

text \<open>
  C3. For a link token with an \<open>href\<close>, \<open>link_open\<close> leaves the array with that token's
  \<open>href\<close> replaced by the rewritten one and renders it. A fragment \<open>#md:t\<close>, and a
  fragment \<open>#t\<close> where \<open>t\<close> does not itself begin with \<open>md:\<close>, become \<open>#md:t\<close>, for
  any \<open>t\<close> that begins with a character other than a line terminator. An \<open>href\<close> that
  does not begin with \<open>#\<close> leaves the array unchanged. \<open>#foo\<close> and \<open>#md:foo\<close> become
  \<open>#md:foo\<close>; \<open>https://example.com\<close> stays.
\<close>

theorem link_open_rewrites_fragment:
  "(\<forall>tokens idx h. idx < length tokens \<and> attrGet (tokens ! idx) ''href'' = Some h \<longrightarrow>
      link_open renderToken tokens idx =
         Inr (renderToken (tokens[idx := attrSet (tokens ! idx) ''href'' (replace_href h)]) idx,
              tokens[idx := attrSet (tokens ! idx) ''href'' (replace_href h)])
      \<and> attrGet (attrSet (tokens ! idx) ''href'' (replace_href h)) ''href'' = Some (replace_href h))
   \<and> (\<forall>t. t \<noteq> [] \<and> \<not> is_line_terminator (hd t) \<longrightarrow> replace_href (''#md:'' @ t) = ''#md:'' @ t)
   \<and> (\<forall>t. t \<noteq> [] \<and> \<not> is_line_terminator (hd t) \<and> take 3 t \<noteq> ''md:'' \<longrightarrow>
          replace_href (''#'' @ t) = ''#md:'' @ t)
   \<and> (\<forall>tokens idx h. idx < length tokens \<and> attrGet (tokens ! idx) ''href'' = Some h
          \<and> (h = [] \<or> hd h \<noteq> CHR ''#'') \<longrightarrow>
          link_open renderToken tokens idx = Inr (renderToken tokens idx, tokens))
   \<and> replace_href ''#foo'' = ''#md:foo''
   \<and> replace_href ''#md:foo'' = ''#md:foo''
   \<and> replace_href ''https://example.com'' = ''https://example.com''"
proof (intro conjI allI impI)
  fix tokens :: "token list" and idx h
  assume a: "idx < length tokens \<and> attrGet (tokens ! idx) ''href'' = Some h"
  then show "link_open renderToken tokens idx =
         Inr (renderToken (tokens[idx := attrSet (tokens ! idx) ''href'' (replace_href h)]) idx,
              tokens[idx := attrSet (tokens ! idx) ''href'' (replace_href h)])"
    by (simp add: link_open_href)
  show "attrGet (attrSet (tokens ! idx) ''href'' (replace_href h)) ''href'' = Some (replace_href h)"
    by (rule attrGet_attrSet)
next
  fix t :: string
  assume "t \<noteq> [] \<and> \<not> is_line_terminator (hd t)"
  then show "replace_href (''#md:'' @ t) = ''#md:'' @ t"
    using replace_href_md by blast
next
  fix t :: string
  assume "t \<noteq> [] \<and> \<not> is_line_terminator (hd t) \<and> take 3 t \<noteq> ''md:''"
  then show "replace_href (''#'' @ t) = ''#md:'' @ t"
    using replace_href_plain by blast
next
  fix tokens :: "token list" and idx h
  assume a: "idx < length tokens \<and> attrGet (tokens ! idx) ''href'' = Some h
          \<and> (h = [] \<or> hd h \<noteq> CHR ''#'')"
  then have "replace_href h = h" by (simp add: replace_href_other)
  with a show "link_open renderToken tokens idx = Inr (renderToken tokens idx, tokens)"
    by (simp add: link_open_unchanged)
qed (rule replace_href_examples)+

theorem link_open_rewrites_fragment_witness:
  "link_open (\<lambda>ts i. tag (ts ! i)) [demo_link ''#foo''] 0 = Inr (''a'', [demo_link ''#md:foo''])
   \<and> link_open (\<lambda>ts i. tag (ts ! i)) [demo_link ''#md:foo''] 0 = Inr (''a'', [demo_link ''#md:foo''])
   \<and> link_open (\<lambda>ts i. tag (ts ! i)) [demo_link ''https://example.com''] 0
       = Inr (''a'', [demo_link ''https://example.com''])
   \<and> replace_href (''#'' @ ''top'') = ''#md:'' @ ''top''"
proof -
  note t = link_open_rewrites_fragment [of "\<lambda>ts i. tag (ts ! i)"]
  have g: "0 < length [demo_link h] \<and> attrGet ([demo_link h] ! 0) ''href'' = Some h" for h
    by (simp add: attrGet_def demo_link_def)
  have s: "[demo_link h][0 := attrSet ([demo_link h] ! 0) ''href'' k] = [demo_link k]" for h k
    by (simp add: attrSet_def demo_link_def)
  have one: "link_open (\<lambda>ts i. tag (ts ! i)) [demo_link h] 0 = Inr (''a'', [demo_link (replace_href h)])" for h
  proof -
    from t g [of h]
    have "link_open (\<lambda>ts i. tag (ts ! i)) [demo_link h] 0 =
         Inr ((\<lambda>ts i. tag (ts ! i)) ([demo_link h][0 := attrSet ([demo_link h] ! 0) ''href'' (replace_href h)]) 0,
              [demo_link h][0 := attrSet ([demo_link h] ! 0) ''href'' (replace_href h)])"
      by blast
    then show ?thesis by (simp only: s) (simp add: demo_link_def)
  qed
  have "''top'' \<noteq> [] \<and> \<not> is_line_terminator (hd ''top'') \<and> take 3 ''top'' \<noteq> ''md:''"
    by (simp add: is_line_terminator_def)
  with t have "replace_href (''#'' @ ''top'') = ''#md:'' @ ''top''" by blast
  moreover from t have "replace_href ''#foo'' = ''#md:foo''" "replace_href ''#md:foo'' = ''#md:foo''"
    "replace_href ''https://example.com'' = ''https://example.com''" by blast+
  ultimately show ?thesis using one [of "''#foo''"] one [of "''#md:foo''"] one [of "''https://example.com''"]
    by simp
qed

text \<open>
  C10. The pattern does not match \<open>#\<close> alone, and \<open>link_open\<close> leaves a token array
  whose link has exactly that \<open>href\<close> unchanged.
\<close>

theorem link_open_bare_hash_unchanged:
  "match_href ''#'' = None
   \<and> (\<forall>tokens idx. idx < length tokens \<and> attrGet (tokens ! idx) ''href'' = Some ''#'' \<longrightarrow>
         link_open renderToken tokens idx = Inr (renderToken tokens idx, tokens))"
proof (intro conjI allI impI)
  show "match_href ''#'' = None"
    by (simp add: match_href_def match_dot_plus_def)
next
  fix tokens :: "token list" and idx
  assume "idx < length tokens \<and> attrGet (tokens ! idx) ''href'' = Some ''#''"
  then show "link_open renderToken tokens idx = Inr (renderToken tokens idx, tokens)"
    using link_open_unchanged [of idx tokens "''#''" renderToken] replace_href_hash by simp
qed

theorem link_open_bare_hash_unchanged_witness:
  "link_open (\<lambda>ts i. tag (ts ! i)) [demo_link ''#''] 0 = Inr (''a'', [demo_link ''#''])"
proof -
  have "0 < length [demo_link ''#''] \<and> attrGet ([demo_link ''#''] ! 0) ''href'' = Some ''#''"
    by (simp add: attrGet_def demo_link_def)
  with link_open_bare_hash_unchanged [of "\<lambda>ts i. tag (ts ! i)"]
  have "link_open (\<lambda>ts i. tag (ts ! i)) [demo_link ''#''] 0
      = Inr ((\<lambda>ts i. tag (ts ! i)) [demo_link ''#''] 0, [demo_link ''#''])"
    by blast
  then show ?thesis by (simp add: demo_link_def)
qed

section \<open>Properties of parseMarkdown\<close>

lemma trigger_append:
  "trigger (fs @ gs) e s =
     (case trigger fs e s of Inl err \<Rightarrow> Inl err | Inr (e1, s1) \<Rightarrow> trigger gs e1 s1)"
  by (induction fs arbitrary: e s) (auto split: sum.splits)

lemma trigger_listenTo:
  "trigger (listenTo subs f) e s =
     (case trigger subs e s of Inl err \<Rightarrow> Inl err | Inr (e1, s1) \<Rightarrow> f e1 s1)"
  by (simp add: listenTo_def trigger_append split: sum.splits)

lemma parseMarkdown_trigger:
  "parseMarkdown d html subs input pg context s =
     (case trigger subs (new_MarkdownEvent pg (markdown_source d html input context)
                           (markdown_source d html input context))
             (s\<lparr>renderContext := Some context\<rparr>) of
        Inl e \<Rightarrow> Inl e
      | Inr (e1, s1) \<Rightarrow> Inr (parsedText e1, s1\<lparr>renderContext := None\<rparr>))"
  by (simp add: parseMarkdown_def markdown_source_def Let_def)

text \<open>
  C8. The event \<open>parseMarkdown\<close> builds has \<open>parsedText\<close> equal to \<open>originalText\<close>,
  the Markdown source: the input string, or the flattened display parts. Dispatch runs
  the subscribers in the order of their registration: with none the event is unchanged,
  and the one registered last runs on what the earlier ones left. When the dispatch
  returns, \<open>parseMarkdown\<close> returns the \<open>parsedText\<close> of the event as the last subscriber
  left it.
\<close>

theorem parseMarkdown_returns_final_parsedText:
  "parsedText (new_MarkdownEvent pg (markdown_source d html input context)
                 (markdown_source d html input context))
     = originalText (new_MarkdownEvent pg (markdown_source d html input context)
                 (markdown_source d html input context))
   \<and> originalText (new_MarkdownEvent pg (markdown_source d html input context)
                 (markdown_source d html input context)) = markdown_source d html input context
   \<and> markdown_source d html (Text_input t) context = t
   \<and> markdown_source d html (Parts_input ps) context = d ps context html
   \<and> trigger [] e s = Inr (e, s)
   \<and> trigger (listenTo subs f) e s =
       (case trigger subs e s of Inl err \<Rightarrow> Inl err | Inr (e1, s1) \<Rightarrow> f e1 s1)
   \<and> (\<forall>e1 s1. trigger subs (new_MarkdownEvent pg (markdown_source d html input context)
                                 (markdown_source d html input context))
                   (s\<lparr>renderContext := Some context\<rparr>) = Inr (e1, s1)
        \<longrightarrow> parseMarkdown d html subs input pg context s
              = Inr (parsedText e1, s1\<lparr>renderContext := None\<rparr>))
   \<and> (\<forall>e1 s1 e2 s2. trigger subs (new_MarkdownEvent pg (markdown_source d html input context)
                                 (markdown_source d html input context))
                   (s\<lparr>renderContext := Some context\<rparr>) = Inr (e1, s1)
          \<and> f e1 s1 = Inr (e2, s2)
        \<longrightarrow> parseMarkdown d html (listenTo subs f) input pg context s
              = Inr (parsedText e2, s2\<lparr>renderContext := None\<rparr>))"
proof (intro conjI allI impI)
  show "trigger (listenTo subs f) e s =
       (case trigger subs e s of Inl err \<Rightarrow> Inl err | Inr (e1, s1) \<Rightarrow> f e1 s1)"
    by (rule trigger_listenTo)
next
  fix e1 s1
  assume "trigger subs (new_MarkdownEvent pg (markdown_source d html input context)
                                 (markdown_source d html input context))
                   (s\<lparr>renderContext := Some context\<rparr>) = Inr (e1, s1)"
  then show "parseMarkdown d html subs input pg context s
              = Inr (parsedText e1, s1\<lparr>renderContext := None\<rparr>)"
    by (simp add: parseMarkdown_trigger)
next
  fix e1 s1 e2 s2
  assume "trigger subs (new_MarkdownEvent pg (markdown_source d html input context)
                                 (markdown_source d html input context))
                   (s\<lparr>renderContext := Some context\<rparr>) = Inr (e1, s1)
          \<and> f e1 s1 = Inr (e2, s2)"
  then show "parseMarkdown d html (listenTo subs f) input pg context s
              = Inr (parsedText e2, s2\<lparr>renderContext := None\<rparr>)"
    by (simp add: parseMarkdown_trigger trigger_listenTo)
qed (simp_all add: new_MarkdownEvent_def markdown_source_def)

theorem parseMarkdown_returns_final_parsedText_witness:
  "parseMarkdown (\<lambda>ps c h. concat ps) False
       (listenTo (listenTo [] (demo_subscriber ''<one>'')) (demo_subscriber ''<two>''))
       (Parts_input [''# '', ''Title'']) () () demo_state
     = Inr (''# Title<one><two>'', demo_state)"
proof -
  let ?d = "\<lambda>(ps :: string list) (c :: unit) (h :: bool). concat ps"
  let ?src = "markdown_source ?d False (Parts_input [''# '', ''Title'']) ()"
  let ?e0 = "new_MarkdownEvent () ?src ?src"
  have src: "?src = ''# Title''" by (simp add: markdown_source_def)
  have rc: "demo_state\<lparr>renderContext := None\<rparr> = demo_state"
    by (simp add: demo_state_def)
  have t1: "trigger (listenTo [] (demo_subscriber ''<one>'')) ?e0 (demo_state\<lparr>renderContext := Some ()\<rparr>)
      = Inr (?e0\<lparr>parsedText := ''# Title<one>''\<rparr>, demo_state\<lparr>renderContext := Some ()\<rparr>)"
    by (simp add: listenTo_def demo_subscriber_def src new_MarkdownEvent_def)
  have t2: "demo_subscriber ''<two>'' (?e0\<lparr>parsedText := ''# Title<one>''\<rparr>) (demo_state\<lparr>renderContext := Some ()\<rparr>)
      = Inr (?e0\<lparr>parsedText := ''# Title<one><two>''\<rparr>, demo_state\<lparr>renderContext := Some ()\<rparr>)"
    by (simp add: demo_subscriber_def)
  from parseMarkdown_returns_final_parsedText
    [of "()" ?d False "Parts_input [''# '', ''Title'']" "()" _ _ _ demo_state
        "listenTo [] (demo_subscriber ''<one>'')" "demo_subscriber ''<two>''"] t1 t2
  have "parseMarkdown ?d False
       (listenTo (listenTo [] (demo_subscriber ''<one>'')) (demo_subscriber ''<two>''))
       (Parts_input [''# '', ''Title'']) () () demo_state
     = Inr (parsedText (?e0\<lparr>parsedText := ''# Title<one><two>''\<rparr>),
            demo_state\<lparr>renderContext := Some (), renderContext := None\<rparr>)"
    by blast
  then show ?thesis by (simp add: rc)
qed

section \<open>Properties of the heading rules\<close>

lemma same_shape_refl: "same_shape ts ts"
  by (simp add: same_shape_def)

lemma same_shape_trans: "same_shape a b \<Longrightarrow> same_shape b c \<Longrightarrow> same_shape a c"
  by (simp add: same_shape_def)

lemma heading_indices_shape: "same_shape ts1 ts2 \<Longrightarrow> heading_indices ts1 is = heading_indices ts2 is"
  by (simp add: heading_indices_def same_shape_def)

lemma heading_entry_shape: "same_shape ts1 ts2 \<Longrightarrow> heading_entry g ts1 = heading_entry g ts2"
  by (simp add: heading_entry_def same_shape_def fun_eq_iff)

lemma headings_for_shape: "same_shape ts1 ts2 \<Longrightarrow> headings_for x ts1 is sl = headings_for x ts2 is sl"
  by (simp add: headings_for_def heading_indices_shape [of ts1 ts2] heading_entry_shape [of ts1 ts2])
     (simp add: same_shape_def)

lemma link_open_shape:
  assumes "link_open r tokens idx = Inr (out, tokens1)"
  shows "same_shape tokens1 tokens"
proof -
  from assms have idx: "idx < length tokens"
    by (simp add: link_open_def split: if_splits)
  show ?thesis
  proof (cases "attrGet (tokens ! idx) ''href''")
    case None
    with idx assms show ?thesis by (simp add: link_open_no_href same_shape_refl)
  next
    case (Some h)
    from link_open_href [OF idx Some, of r] assms
    have t1: "tokens1 = tokens[idx := attrSet (tokens ! idx) ''href'' (replace_href h)]" by simp
    have "type (tokens1 ! j) = type (tokens ! j) \<and> content (tokens1 ! j) = content (tokens ! j)
          \<and> markup (tokens1 ! j) = markup (tokens ! j)" for j
      using idx by (cases "j = idx") (simp_all add: t1 attrSet_def)
    then show ?thesis by (simp add: same_shape_def t1)
  qed
qed

lemma heading_open_Inr:
  assumes "heading_open u g tokens idx s = Inr (out, s1)"
  shows "idx + 1 < length tokens"
    and "page s \<noteq> None"
    and "headings_of s1 = headings_of s @
           [heading_entry g tokens (idx, fst (slug u (content (tokens ! (idx + 1))) (active_slugger s)))]"
    and "active_slugger s1 = snd (slug u (content (tokens ! (idx + 1))) (active_slugger s))"
    and "theme_getSlugger s1 = None \<longleftrightarrow> theme_getSlugger s = None"
    and "lastHeaderSlug s1 = fst (slug u (content (tokens ! (idx + 1))) (active_slugger s))"
    and "logged s1 = logged s @
           (if theme_getSlugger s = None \<and> defaultSlugger s = None
            then [custom_theme_does_not_define_getSlugger] else [])"
  using assms
  by (auto simp: heading_open_def getSlugger_def getDefaultSlugger_def slug_on_def Let_def
      headings_of_def active_slugger_def heading_entry_def split_beta
      split: if_splits option.splits sum.splits)

lemma heading_open_succeeds:
  assumes "idx + 1 < length tokens" and "page s = Some p"
  shows "\<exists>out s1. heading_open u g tokens idx s = Inr (out, s1) \<and> page s1 \<noteq> None"
  using assms
  by (auto simp: heading_open_def getSlugger_def getDefaultSlugger_def slug_on_def Let_def
      split_beta split: option.splits)

lemma heading_open_default:
  assumes "heading_open u g tokens idx s = Inr (out, s1)" and "theme_getSlugger s = None"
  shows "defaultSlugger s1 \<noteq> None"
  using assms
  by (auto simp: heading_open_def getSlugger_def getDefaultSlugger_def slug_on_def Let_def
      split_beta split: if_splits option.splits sum.splits)

lemma render_step_heading:
  assumes "render_step x tokens i s = Inr (out, tokens1, s1)"
    and "type (tokens ! i) = ''heading_open''"
  shows "tokens1 = tokens"
    and "heading_open (ext_unsafe x) (ext_getTextContent x) tokens i s = Inr (out, s1)"
  using assms by (auto simp: render_step_def Let_def split: sum.splits)

lemma render_step_other:
  assumes "render_step x tokens i s = Inr (out, tokens1, s1)"
    and "type (tokens ! i) \<noteq> ''heading_open''"
  shows "s1 = s" and "same_shape tokens1 tokens"
  using assms
  by (auto simp: render_step_def Let_def same_shape_refl split: sum.splits if_splits
      dest: link_open_shape)

lemma render_step_shape:
  assumes "render_step x tokens i s = Inr (out, tokens1, s1)"
  shows "same_shape tokens1 tokens"
proof (cases "type (tokens ! i) = ''heading_open''")
  case True
  from render_step_heading(1) [OF assms True] show ?thesis by (simp add: same_shape_refl)
next
  case False
  with assms show ?thesis by (rule render_step_other(2))
qed

lemma headings_for_Nil: "headings_for x tokens [] sl = []"
  by (simp add: headings_for_def heading_indices_def)

lemma headings_for_Cons_heading:
  assumes "type (tokens ! i) = ''heading_open''"
  shows "headings_for x tokens (i # rest) sl =
     heading_entry (ext_getTextContent x) tokens
        (i, fst (slug (ext_unsafe x) (content (tokens ! (i + 1))) sl))
     # headings_for x tokens rest (snd (slug (ext_unsafe x) (content (tokens ! (i + 1))) sl))"
  using assms by (simp add: headings_for_def heading_indices_def split_beta Let_def)

lemma headings_for_Cons_other:
  assumes "type (tokens ! i) \<noteq> ''heading_open''"
  shows "headings_for x tokens (i # rest) sl = headings_for x tokens rest sl"
  using assms by (simp add: headings_for_def heading_indices_def)

lemma heading_indices_Cons:
  "heading_indices tokens (i # rest) =
     (if type (tokens ! i) = ''heading_open'' then i # heading_indices tokens rest
      else heading_indices tokens rest)"
  by (simp add: heading_indices_def)

lemma render_loop_headings:
  assumes "render_loop x is result tokens s = Inr (html, tokens1, s1)"
  shows "headings_of s1 = headings_of s @ headings_for x tokens is (active_slugger s)
       \<and> same_shape tokens1 tokens
       \<and> (\<forall>i \<in> set (heading_indices tokens is). i + 1 < length tokens)"
  using assms
proof (induction "is" arbitrary: result tokens s)
  case Nil
  then show ?case by (simp add: headings_for_Nil same_shape_refl heading_indices_def)
next
  case (Cons i rest)
  from Cons.prems obtain out tokens2 s2
    where step: "render_step x tokens i s = Inr (out, tokens2, s2)"
      and loop: "render_loop x rest (result @ out) tokens2 s2 = Inr (html, tokens1, s1)"
    by (auto split: sum.splits)
  from Cons.IH [OF loop]
  have ih: "headings_of s1 = headings_of s2 @ headings_for x tokens2 rest (active_slugger s2)"
    and sh: "same_shape tokens1 tokens2"
    and rg: "\<forall>i \<in> set (heading_indices tokens2 rest). i + 1 < length tokens2" by simp_all
  have sh2: "same_shape tokens2 tokens" by (rule render_step_shape [OF step])
  have shape: "same_shape tokens1 tokens" by (rule same_shape_trans [OF sh sh2])
  have len: "length tokens2 = length tokens" using sh2 by (simp add: same_shape_def)
  have range: "\<forall>i \<in> set (heading_indices tokens rest). i + 1 < length tokens"
    using rg heading_indices_shape [OF sh2, of rest] len by simp
  show ?case
  proof (cases "type (tokens ! i) = ''heading_open''")
    case True
    note ho = render_step_heading(2) [OF step True]
    from render_step_heading(1) [OF step True] have t2: "tokens2 = tokens" .
    from heading_open_Inr(1,3,4) [OF ho] ih t2 shape range True show ?thesis
      by (simp add: headings_for_Cons_heading [OF True] heading_indices_Cons)
  next
    case False
    from render_step_other(1) [OF step False] have "s2 = s" .
    with ih headings_for_shape [OF sh2] shape range False show ?thesis
      by (simp add: headings_for_Cons_other [OF False] heading_indices_Cons)
  qed
qed

lemma render_headings:
  assumes "render x tokens s = Inr (html, tokens1, s1)"
  shows "headings_of s1 = headings_of s @ rendered_headings x tokens (active_slugger s)"
    and "\<forall>i \<in> set (heading_indices tokens [0..<length tokens]). i + 1 < length tokens"
  using render_loop_headings [of x "[0..<length tokens]" "[]" tokens s html tokens1 s1] assms
  by (simp_all add: render_def rendered_headings_def)

lemma heading_indices_length:
  "length (heading_indices tokens [0..<length tokens])
     = length (filter (\<lambda>t. type t = ''heading_open'') tokens)"
proof -
  have "map ((!) tokens) (heading_indices tokens [0..<length tokens])
      = filter (\<lambda>t. type t = ''heading_open'') (map ((!) tokens) [0..<length tokens])"
    by (simp add: heading_indices_def filter_map comp_def)
  then have "length (map ((!) tokens) (heading_indices tokens [0..<length tokens]))
      = length (filter (\<lambda>t. type t = ''heading_open'') tokens)"
    by (simp only: map_nth)
  then show ?thesis by simp
qed

lemma slug_calls_length: "length (fst (slug_calls u ts sl)) = length ts"
  by (induction ts arbitrary: sl) (simp_all add: split_beta)

lemma rendered_headings_length:
  "length (rendered_headings x tokens sl) = length (filter (\<lambda>t. type t = ''heading_open'') tokens)"
  by (simp add: rendered_headings_def headings_for_def slug_calls_length heading_indices_length)

lemma rendered_headings_links:
  "map link (rendered_headings x tokens sl) =
     map ((@) ''#md:'')
       (fst (slug_calls (ext_unsafe x)
          (map (\<lambda>i. content (tokens ! (i + 1))) (heading_indices tokens [0..<length tokens])) sl))"
proof -
  let ?is = "heading_indices tokens [0..<length tokens]"
  let ?ss = "fst (slug_calls (ext_unsafe x) (map (\<lambda>i. content (tokens ! (i + 1))) ?is) sl)"
  have len: "length ?is = length ?ss" by (simp add: slug_calls_length)
  have "map link (rendered_headings x tokens sl)
      = map (\<lambda>p. ''#md:'' @ snd p) (zip ?is ?ss)"
    by (simp add: rendered_headings_def headings_for_def heading_entry_def split_beta)
  also have "\<dots> = map ((@) ''#md:'') (map snd (zip ?is ?ss))"
    by simp
  also have "\<dots> = map ((@) ''#md:'') ?ss"
    using len by simp
  finally show ?thesis .
qed

lemma rendered_headings_text_level:
  "map heading_text (rendered_headings x tokens sl) =
     map (\<lambda>i. ext_getTextContent x (content (tokens ! (i + 1))))
       (heading_indices tokens [0..<length tokens])"
  "map level (rendered_headings x tokens sl) =
     map (\<lambda>i. length (markup (tokens ! i))) (heading_indices tokens [0..<length tokens])"
proof -
  let ?is = "heading_indices tokens [0..<length tokens]"
  let ?ss = "fst (slug_calls (ext_unsafe x) (map (\<lambda>i. content (tokens ! (i + 1))) ?is) sl)"
  have len: "length ?is = length ?ss" by (simp add: slug_calls_length)
  have "map heading_text (rendered_headings x tokens sl)
      = map (\<lambda>i. ext_getTextContent x (content (tokens ! (i + 1)))) (map fst (zip ?is ?ss))"
    by (simp add: rendered_headings_def headings_for_def heading_entry_def split_beta comp_def)
  then show "map heading_text (rendered_headings x tokens sl) =
     map (\<lambda>i. ext_getTextContent x (content (tokens ! (i + 1)))) ?is"
    using len by simp
  have "map level (rendered_headings x tokens sl)
      = map (\<lambda>i. length (markup (tokens ! i))) (map fst (zip ?is ?ss))"
    by (simp add: rendered_headings_def headings_for_def heading_entry_def split_beta comp_def)
  then show "map level (rendered_headings x tokens sl) =
     map (\<lambda>i. length (markup (tokens ! i))) ?is"
    using len by simp
qed

text \<open>
  Rendering returns when there is a page and every \<open>heading_open\<close> token has a token
  after it.
\<close>

lemma render_step_succeeds:
  assumes "i < length tokens" and "page s = Some p"
    and "type (tokens ! i) = ''heading_open'' \<longrightarrow> i + 1 < length tokens"
  shows "\<exists>out tokens1 s1. render_step x tokens i s = Inr (out, tokens1, s1) \<and> page s1 \<noteq> None"
proof (cases "type (tokens ! i) = ''heading_open''")
  case True
  with assms(3) have "i + 1 < length tokens" by simp
  from heading_open_succeeds [OF this assms(2), of "ext_unsafe x" "ext_getTextContent x"]
  show ?thesis using True by (auto simp: render_step_def Let_def)
next
  case False
  then show ?thesis using assms(1,2)
    by (auto simp: render_step_def Let_def heading_close_def link_open_def)
qed

lemma render_loop_succeeds:
  assumes "\<forall>i \<in> set is. i < length tokens \<and> (type (tokens ! i) = ''heading_open'' \<longrightarrow> i + 1 < length tokens)"
    and "page s \<noteq> None"
  shows "\<exists>html tokens1 s1. render_loop x is result tokens s = Inr (html, tokens1, s1)"
  using assms
proof (induction "is" arbitrary: result tokens s)
  case Nil
  show ?case by simp
next
  case (Cons i rest)
  from Cons.prems obtain p where p: "page s = Some p" by auto
  from Cons.prems(1) have i: "i < length tokens"
    and h: "type (tokens ! i) = ''heading_open'' \<longrightarrow> i + 1 < length tokens" by simp_all
  from render_step_succeeds [OF i p h, of x] obtain out tokens2 s2
    where step: "render_step x tokens i s = Inr (out, tokens2, s2)" and p2: "page s2 \<noteq> None"
    by blast
  have sh: "same_shape tokens2 tokens" by (rule render_step_shape [OF step])
  have "\<forall>i \<in> set rest. i < length tokens2 \<and> (type (tokens2 ! i) = ''heading_open'' \<longrightarrow> i + 1 < length tokens2)"
    using Cons.prems(1) sh by (simp add: same_shape_def)
  from Cons.IH [OF this p2, of "result @ out"] step show ?case by simp
qed

lemma render_succeeds:
  assumes "\<forall>i < length tokens. type (tokens ! i) = ''heading_open'' \<longrightarrow> i + 1 < length tokens"
    and "page s \<noteq> None"
  shows "\<exists>html tokens1 s1. render x tokens s = Inr (html, tokens1, s1)"
  unfolding render_def
  by (rule render_loop_succeeds) (use assms in auto)

lemma title_tokens_indices: "heading_indices title_tokens [0..<length title_tokens] = [0, 3]"
  by code_simp

lemma title_tokens_contents:
  "map (\<lambda>i. content (title_tokens ! (i + 1))) [0, 3] = [''Title'', ''Title'']"
  by code_simp

lemma title_tokens_markup:
  "markup (title_tokens ! 0) = ''#''" "markup (title_tokens ! 3) = ''#''"
  "content (title_tokens ! Suc 0) = ''Title''" "content (title_tokens ! 4) = ''Title''"
  by code_simp+

lemma title_tokens_wellformed:
  "\<forall>i < length title_tokens. type (title_tokens ! i) = ''heading_open'' \<longrightarrow> i + 1 < length title_tokens"
proof (intro allI impI)
  fix i
  assume "i < length title_tokens" and h: "type (title_tokens ! i) = ''heading_open''"
  then have "i \<in> {0, 1, 2, 3, 4, 5}" by (auto simp: title_tokens_def)
  with h have "i = 0 \<or> i = 3"
    by (auto simp: title_tokens_def heading_token_def inline_token_def)
  then show "i + 1 < length title_tokens" by (auto simp: title_tokens_def)
qed

lemma slug_calls_Title_twice:
  assumes "\<forall>c \<in> set ''title''. \<not> u c"
  shows "fst (slug_calls u [''Title'', ''Title''] new_Slugger) = [''title'', ''title-1'']"
proof -
  have "[''Title'', ''Title''] = replicate (Suc 1) ''Title''" by simp
  moreover have "[1..<Suc 1] = [1]" by simp
  ultimately show ?thesis
    by (simp only: slug_calls_repeat serialize_Title [OF assms] suffixed_title list.map)
qed

lemma rendered_headings_title:
  assumes "\<forall>c \<in> set ''title''. \<not> ext_unsafe x c" and "ext_getTextContent x ''Title'' = ''Title''"
  shows "rendered_headings x title_tokens new_Slugger =
     [\<lparr>link = ''#md:title'', heading_text = ''Title'', level = 1\<rparr>,
      \<lparr>link = ''#md:title-1'', heading_text = ''Title'', level = 1\<rparr>]"
proof -
  have "rendered_headings x title_tokens new_Slugger =
      map (heading_entry (ext_getTextContent x) title_tokens)
        (zip [0, 3] (fst (slug_calls (ext_unsafe x) [''Title'', ''Title''] new_Slugger)))"
    by (simp only: rendered_headings_def headings_for_def title_tokens_indices
        title_tokens_contents)
  also have "\<dots> = map (heading_entry (ext_getTextContent x) title_tokens)
        (zip [0, 3] [''title'', ''title-1''])"
    by (simp only: slug_calls_Title_twice [OF assms(1)])
  also have "\<dots> = [\<lparr>link = ''#md:title'', heading_text = ''Title'', level = 1\<rparr>,
      \<lparr>link = ''#md:title-1'', heading_text = ''Title'', level = 1\<rparr>]"
    by (simp add: heading_entry_def title_tokens_markup assms(2))
  finally show ?thesis .
qed

lemma render_title:
  assumes "page s = Some p" and "pageHeadings p = []" and "active_slugger s = new_Slugger"
    and "\<forall>c \<in> set ''title''. \<not> ext_unsafe x c" and "ext_getTextContent x ''Title'' = ''Title''"
  shows "\<exists>html tokens1 s1. render x title_tokens s = Inr (html, tokens1, s1)
     \<and> headings_of s1 =
        [\<lparr>link = ''#md:title'', heading_text = ''Title'', level = 1\<rparr>,
         \<lparr>link = ''#md:title-1'', heading_text = ''Title'', level = 1\<rparr>]"
proof -
  from assms(1) have "page s \<noteq> None" by simp
  from render_succeeds [OF title_tokens_wellformed this, of x] obtain html tokens1 s1
    where r: "render x title_tokens s = Inr (html, tokens1, s1)" by blast
  have "headings_of s = []" using assms(1,2) by (simp add: headings_of_def)
  with render_headings(1) [OF r] assms(3) rendered_headings_title [OF assms(4,5)]
  have "headings_of s1 =
        [\<lparr>link = ''#md:title'', heading_text = ''Title'', level = 1\<rparr>,
         \<lparr>link = ''#md:title-1'', heading_text = ''Title'', level = 1\<rparr>]" by simp
  with r show ?thesis by blast
qed

text \<open>
  C1. A \<open>heading_open\<close> that returns has appended exactly one entry to the page's
  headings: its link is \<open>#md:\<close> followed by the slug just issued, its text the plain
  text of the heading's content, its level the length of the markup. A rendering that
  returns has appended one entry for each \<open>heading_open\<close> token, in document order, and
  the links are \<open>#md:\<close> followed by the slugs that the slugger issues for the headings'
  contents in that order. For the tokens of \<open># Title\<close>, blank line, \<open># Title\<close>, on a
  page without headings and with a new slugger, rendering returns and the headings are
  \<open>Title\<close> at level 1 with the link \<open>#md:title\<close> and \<open>Title\<close> at level 1 with the link
  \<open>#md:title-1\<close>.
\<close>

theorem render_appends_headings_in_order:
  \<open>(\<forall>out s1. heading_open (ext_unsafe x) (ext_getTextContent x) tokens idx s = Inr (out, s1) \<longrightarrow>
       headings_of s1 = headings_of s @
         [\<lparr>link = ''#md:'' @ lastHeaderSlug s1,
           heading_text = ext_getTextContent x (content (tokens ! (idx + 1))),
           level = length (markup (tokens ! idx))\<rparr>]
       \<and> lastHeaderSlug s1
           = fst (slug (ext_unsafe x) (content (tokens ! (idx + 1))) (active_slugger s)))
   \<and> (\<forall>html tokens1 s1. render x tokens s = Inr (html, tokens1, s1) \<longrightarrow>
         headings_of s1 = headings_of s @ rendered_headings x tokens (active_slugger s)
         \<and> (\<forall>i \<in> set (heading_indices tokens [0..<length tokens]). i + 1 < length tokens))
   \<and> length (rendered_headings x tokens sl)
       = length (filter (\<lambda>t. type t = ''heading_open'') tokens)
   \<and> map link (rendered_headings x tokens sl) =
       map ((@) ''#md:'')
         (fst (slug_calls (ext_unsafe x)
            (map (\<lambda>i. content (tokens ! (i + 1))) (heading_indices tokens [0..<length tokens])) sl))
   \<and> map heading_text (rendered_headings x tokens sl) =
       map (\<lambda>i. ext_getTextContent x (content (tokens ! (i + 1))))
         (heading_indices tokens [0..<length tokens])
   \<and> map level (rendered_headings x tokens sl) =
       map (\<lambda>i. length (markup (tokens ! i))) (heading_indices tokens [0..<length tokens])
   \<and> (\<forall>p. page s = Some p \<and> pageHeadings p = [] \<and> active_slugger s = new_Slugger
          \<and> (\<forall>c \<in> set ''title''. \<not> ext_unsafe x c) \<and> ext_getTextContent x ''Title'' = ''Title''
        \<longrightarrow> (\<exists>html tokens1 s1. render x title_tokens s = Inr (html, tokens1, s1)
              \<and> headings_of s1 =
                 [\<lparr>link = ''#md:title'', heading_text = ''Title'', level = 1\<rparr>,
                  \<lparr>link = ''#md:title-1'', heading_text = ''Title'', level = 1\<rparr>]))\<close>
proof (intro conjI allI impI)
  fix out s1
  assume a: "heading_open (ext_unsafe x) (ext_getTextContent x) tokens idx s = Inr (out, s1)"
  show "lastHeaderSlug s1
           = fst (slug (ext_unsafe x) (content (tokens ! (idx + 1))) (active_slugger s))"
    by (rule heading_open_Inr(6) [OF a])
  then show "headings_of s1 = headings_of s @
         [\<lparr>link = ''#md:'' @ lastHeaderSlug s1,
           heading_text = ext_getTextContent x (content (tokens ! (idx + 1))),
           level = length (markup (tokens ! idx))\<rparr>]"
    using heading_open_Inr(3) [OF a] by (simp add: heading_entry_def)
next
  fix html tokens1 s1
  assume "render x tokens s = Inr (html, tokens1, s1)"
  then show "headings_of s1 = headings_of s @ rendered_headings x tokens (active_slugger s)"
    by (rule render_headings(1))
next
  fix html tokens1 s1
  assume "render x tokens s = Inr (html, tokens1, s1)"
  then show "\<forall>i \<in> set (heading_indices tokens [0..<length tokens]). i + 1 < length tokens"
    by (rule render_headings(2))
next
  show "length (rendered_headings x tokens sl)
       = length (filter (\<lambda>t. type t = ''heading_open'') tokens)"
    by (rule rendered_headings_length)
  show "map link (rendered_headings x tokens sl) =
       map ((@) ''#md:'')
         (fst (slug_calls (ext_unsafe x)
            (map (\<lambda>i. content (tokens ! (i + 1))) (heading_indices tokens [0..<length tokens])) sl))"
    by (rule rendered_headings_links)
  show "map heading_text (rendered_headings x tokens sl) =
       map (\<lambda>i. ext_getTextContent x (content (tokens ! (i + 1))))
         (heading_indices tokens [0..<length tokens])"
    by (rule rendered_headings_text_level)
  show "map level (rendered_headings x tokens sl) =
       map (\<lambda>i. length (markup (tokens ! i))) (heading_indices tokens [0..<length tokens])"
    by (rule rendered_headings_text_level)
next
  fix p
  assume "page s = Some p \<and> pageHeadings p = [] \<and> active_slugger s = new_Slugger
          \<and> (\<forall>c \<in> set ''title''. \<not> ext_unsafe x c) \<and> ext_getTextContent x ''Title'' = ''Title''"
  then show "\<exists>html tokens1 s1. render x title_tokens s = Inr (html, tokens1, s1)
              \<and> headings_of s1 =
                 [\<lparr>link = ''#md:title'', heading_text = ''Title'', level = 1\<rparr>,
                  \<lparr>link = ''#md:title-1'', heading_text = ''Title'', level = 1\<rparr>]"
    using render_title by blast
qed

theorem render_appends_headings_in_order_witness:
  \<open>\<exists>html tokens1 s1. render demo_externals title_tokens demo_state = Inr (html, tokens1, s1)
     \<and> headings_of s1 =
        [\<lparr>link = ''#md:title'', heading_text = ''Title'', level = 1\<rparr>,
         \<lparr>link = ''#md:title-1'', heading_text = ''Title'', level = 1\<rparr>]\<close>
proof -
  have "page demo_state = Some \<lparr>friendlyFullName = ''README'', pageHeadings = []\<rparr>
      \<and> pageHeadings \<lparr>friendlyFullName = ''README'', pageHeadings = []\<rparr> = []
      \<and> active_slugger demo_state = new_Slugger
      \<and> (\<forall>c \<in> set ''title''. \<not> ext_unsafe demo_externals c)
      \<and> ext_getTextContent demo_externals ''Title'' = ''Title''"
    by (simp add: demo_state_def active_slugger_def demo_externals_def)
  with render_appends_headings_in_order [of demo_externals _ _ demo_state]
  show ?thesis by blast
qed

section \<open>Properties of getSlugger\<close>

lemma getSlugger_fallback:
  assumes "theme_getSlugger s = None"
  shows "getSlugger s =
      Inr (the_defaultSlugger,
           if defaultSlugger s = None
           then s\<lparr>logged := logged s @ [custom_theme_does_not_define_getSlugger],
                  defaultSlugger := Some new_Slugger\<rparr>
           else s)"
  using assms by (simp add: getSlugger_def getDefaultSlugger_def split: option.splits)

lemma slug_on_default:
  assumes "defaultSlugger s = Some sl"
  shows "slug_on unsafe the_defaultSlugger t s =
      Inr (fst (slug unsafe t sl), s\<lparr>defaultSlugger := Some (snd (slug unsafe t sl))\<rparr>)"
  using assms by (simp add: slug_on_def split_beta)

lemma render_loop_logged:
  assumes "render_loop x is result tokens s = Inr (html, tokens1, s1)"
    and "theme_getSlugger s = None"
  shows "logged s1 = logged s @
           (if defaultSlugger s = None \<and> heading_indices tokens is \<noteq> []
            then [custom_theme_does_not_define_getSlugger] else [])
       \<and> theme_getSlugger s1 = None
       \<and> (defaultSlugger s \<noteq> None \<longrightarrow> defaultSlugger s1 \<noteq> None)"
  using assms
proof (induction "is" arbitrary: result tokens s)
  case Nil
  then show ?case by (simp add: heading_indices_def)
next
  case (Cons i rest)
  from Cons.prems(1) obtain out tokens2 s2
    where step: "render_step x tokens i s = Inr (out, tokens2, s2)"
      and loop: "render_loop x rest (result @ out) tokens2 s2 = Inr (html, tokens1, s1)"
    by (auto split: sum.splits)
  have sh2: "same_shape tokens2 tokens" by (rule render_step_shape [OF step])
  have hi: "heading_indices tokens2 rest = heading_indices tokens rest"
    by (rule heading_indices_shape [OF sh2])
  show ?case
  proof (cases "type (tokens ! i) = ''heading_open''")
    case True
    note ho = render_step_heading(2) [OF step True]
    have th2: "theme_getSlugger s2 = None"
      using heading_open_Inr(5) [OF ho] Cons.prems(2) by simp
    have d2: "defaultSlugger s2 \<noteq> None"
      by (rule heading_open_default [OF ho Cons.prems(2)])
    have l2: "logged s2 = logged s @
           (if defaultSlugger s = None then [custom_theme_does_not_define_getSlugger] else [])"
      using heading_open_Inr(7) [OF ho] Cons.prems(2) by simp
    from Cons.IH [OF loop th2] d2 l2 True show ?thesis
      by (simp add: heading_indices_Cons)
  next
    case False
    from render_step_other(1) [OF step False] have s2: "s2 = s" .
    from Cons.IH [OF loop] Cons.prems(2) s2 hi False show ?thesis
      by (simp add: heading_indices_Cons)
  qed
qed

lemma render_logged:
  assumes "render x tokens s = Inr (html, tokens1, s1)"
    and "theme_getSlugger s = None"
  shows "logged s1 = logged s @
           (if defaultSlugger s = None \<and> heading_indices tokens [0..<length tokens] \<noteq> []
            then [custom_theme_does_not_define_getSlugger] else [])"
    and "theme_getSlugger s1 = None"
    and "defaultSlugger s \<noteq> None \<longrightarrow> defaultSlugger s1 \<noteq> None"
  using render_loop_logged [of x "[0..<length tokens]" "[]" tokens s html tokens1 s1] assms
  by (simp_all add: render_def)

text \<open>
  C7. When the theme does not define \<open>getSlugger\<close>, \<open>getSlugger\<close> returns the default
  slugger. The call that finds it missing creates it and logs the warning once; a call
  that finds it logs nothing and changes nothing, also after the instance has been used.
  Over a whole rendering the warning is logged once when the default slugger did not
  exist and a heading was rendered, and not at all otherwise, and the default slugger
  once created is still there afterwards.
\<close>

theorem getSlugger_fallback_warns_once:
  "(theme_getSlugger s = None \<longrightarrow>
      (\<exists>s1. getSlugger s = Inr (the_defaultSlugger, s1)
         \<and> logged s1 = logged s @
              (if defaultSlugger s = None then [custom_theme_does_not_define_getSlugger] else [])
         \<and> defaultSlugger s1 = Some (case defaultSlugger s of None \<Rightarrow> new_Slugger | Some sl \<Rightarrow> sl)
         \<and> (defaultSlugger s \<noteq> None \<longrightarrow> s1 = s)
         \<and> getSlugger s1 = Inr (the_defaultSlugger, s1)
         \<and> (\<forall>unsafe t. \<exists>sg s2. slug_on unsafe the_defaultSlugger t s1 = Inr (sg, s2)
                \<and> getSlugger s2 = Inr (the_defaultSlugger, s2))))
   \<and> (theme_getSlugger s = None \<longrightarrow>
        (\<forall>html tokens1 s1. render x tokens s = Inr (html, tokens1, s1) \<longrightarrow>
           logged s1 = logged s @
             (if defaultSlugger s = None \<and> heading_indices tokens [0..<length tokens] \<noteq> []
              then [custom_theme_does_not_define_getSlugger] else [])
           \<and> theme_getSlugger s1 = None
           \<and> (defaultSlugger s \<noteq> None \<longrightarrow> defaultSlugger s1 \<noteq> None)))"
proof (intro conjI impI allI)
  assume th: "theme_getSlugger s = None"
  let ?s1 = "if defaultSlugger s = None
           then s\<lparr>logged := logged s @ [custom_theme_does_not_define_getSlugger],
                  defaultSlugger := Some new_Slugger\<rparr>
           else s"
  have g: "getSlugger s = Inr (the_defaultSlugger, ?s1)"
    by (rule getSlugger_fallback [OF th])
  have th1: "theme_getSlugger ?s1 = None" using th by simp
  have d: "defaultSlugger ?s1 = Some (case defaultSlugger s of None \<Rightarrow> new_Slugger | Some sl \<Rightarrow> sl)"
    by (simp split: option.splits)
  have same: "defaultSlugger s \<noteq> None \<longrightarrow> ?s1 = s" by simp
  have again: "getSlugger ?s1 = Inr (the_defaultSlugger, ?s1)"
    using getSlugger_fallback [OF th1] d by simp
  have later: "\<exists>sg s2. slug_on unsafe the_defaultSlugger t ?s1 = Inr (sg, s2)
             \<and> getSlugger s2 = Inr (the_defaultSlugger, s2)" for unsafe t
  proof -
    let ?sl = "case defaultSlugger s of None \<Rightarrow> new_Slugger | Some sl \<Rightarrow> sl"
    let ?s2 = "?s1\<lparr>defaultSlugger := Some (snd (slug unsafe t ?sl))\<rparr>"
    have "slug_on unsafe the_defaultSlugger t ?s1 = Inr (fst (slug unsafe t ?sl), ?s2)"
      by (rule slug_on_default [OF d])
    moreover have "theme_getSlugger ?s2 = None" using th by simp
    then have "getSlugger ?s2 = Inr (the_defaultSlugger, ?s2)"
      using getSlugger_fallback [of ?s2] by simp
    ultimately show ?thesis by blast
  qed
  have l: "logged ?s1 = logged s @
      (if defaultSlugger s = None then [custom_theme_does_not_define_getSlugger] else [])"
    by simp
  from g l d same again later
  show "\<exists>s1. getSlugger s = Inr (the_defaultSlugger, s1)
         \<and> logged s1 = logged s @
              (if defaultSlugger s = None then [custom_theme_does_not_define_getSlugger] else [])
         \<and> defaultSlugger s1 = Some (case defaultSlugger s of None \<Rightarrow> new_Slugger | Some sl \<Rightarrow> sl)
         \<and> (defaultSlugger s \<noteq> None \<longrightarrow> s1 = s)
         \<and> getSlugger s1 = Inr (the_defaultSlugger, s1)
         \<and> (\<forall>unsafe t. \<exists>sg s2. slug_on unsafe the_defaultSlugger t s1 = Inr (sg, s2)
                \<and> getSlugger s2 = Inr (the_defaultSlugger, s2))"
    by blast
next
  fix html tokens1 s1
  assume th: "theme_getSlugger s = None" and r: "render x tokens s = Inr (html, tokens1, s1)"
  show "logged s1 = logged s @
             (if defaultSlugger s = None \<and> heading_indices tokens [0..<length tokens] \<noteq> []
              then [custom_theme_does_not_define_getSlugger] else [])"
    by (rule render_logged(1) [OF r th])
  show "theme_getSlugger s1 = None"
    by (rule render_logged(2) [OF r th])
next
  fix html tokens1 s1
  assume th: "theme_getSlugger s = None" and r: "render x tokens s = Inr (html, tokens1, s1)"
    and "defaultSlugger s \<noteq> None"
  then show "defaultSlugger s1 \<noteq> None"
    using render_logged(3) [OF r th] by simp
qed

theorem getSlugger_fallback_warns_once_witness:
  "(\<exists>s1. getSlugger demo_state = Inr (the_defaultSlugger, s1)
       \<and> logged s1 = [custom_theme_does_not_define_getSlugger]
       \<and> defaultSlugger s1 = Some new_Slugger
       \<and> getSlugger s1 = Inr (the_defaultSlugger, s1))
   \<and> (\<exists>html tokens1 s1. render demo_externals title_tokens demo_state = Inr (html, tokens1, s1)
       \<and> logged s1 = [custom_theme_does_not_define_getSlugger])"
proof -
  have th: "theme_getSlugger demo_state = None" and d: "defaultSlugger demo_state = None"
    and lg: "logged demo_state = []" and pg: "page demo_state \<noteq> None"
    by (simp_all add: demo_state_def)
  note t = getSlugger_fallback_warns_once [of demo_state demo_externals title_tokens]
  from t th have "\<exists>s1. getSlugger demo_state = Inr (the_defaultSlugger, s1)
         \<and> logged s1 = logged demo_state @
              (if defaultSlugger demo_state = None then [custom_theme_does_not_define_getSlugger] else [])
         \<and> defaultSlugger s1 = Some (case defaultSlugger demo_state of None \<Rightarrow> new_Slugger | Some sl \<Rightarrow> sl)
         \<and> getSlugger s1 = Inr (the_defaultSlugger, s1)"
    by blast
  then have first: "\<exists>s1. getSlugger demo_state = Inr (the_defaultSlugger, s1)
       \<and> logged s1 = [custom_theme_does_not_define_getSlugger]
       \<and> defaultSlugger s1 = Some new_Slugger
       \<and> getSlugger s1 = Inr (the_defaultSlugger, s1)"
    by (simp add: d lg)
  from render_succeeds [OF title_tokens_wellformed pg, of demo_externals] obtain html tokens1 s1
    where r: "render demo_externals title_tokens demo_state = Inr (html, tokens1, s1)" by blast
  from t th r have "logged s1 = logged demo_state @
             (if defaultSlugger demo_state = None
                 \<and> heading_indices title_tokens [0..<length title_tokens] \<noteq> []
              then [custom_theme_does_not_define_getSlugger] else [])"
    by blast
  then have "logged s1 = [custom_theme_does_not_define_getSlugger]"
    by (simp add: d lg title_tokens_indices)
  with r first show ?thesis by blast
qed

end
